theory Spec2Isabelle
  imports Complex_Main "HOL-Library.AList"
begin

section \<open>Python values shared by the functions of debruijn.py\<close>

text \<open>
  The exceptions that the modelled functions can raise. \<open>statistics.mean\<close> and
  \<open>statistics.stdev\<close> both raise \<open>StatisticsError\<close>; the two constructors keep apart
  which of the two calls raised it.
\<close>

datatype error =
    IndexError
  | StatisticsError_mean
  | StatisticsError_variance
  | NodeNotFound
  | ValueError

text \<open>
  A Python slice \<open>xs[lo:hi]\<close> with integer bounds: a negative bound counts from the end,
  and both bounds are clipped to \<open>0 .. len(xs)\<close>.
\<close>

definition py_slice :: "'a list \<Rightarrow> int \<Rightarrow> int \<Rightarrow> 'a list" where
  "py_slice xs lo hi =
     (let n = int (length xs);
          clip = (\<lambda>i. if i < 0 then max 0 (i + n) else min i n);
          a = clip lo;
          b = clip hi
      in take (nat (b - a)) (drop (nat a) xs))"

section \<open>K-mer tabulation: \<open>cut_kmer\<close> and \<open>build_kmer_dict\<close>\<close>

text \<open>
  \<open>cut_kmer(read, kmer_size)\<close> visits every start position \<open>i\<close> of \<open>range(len(read))\<close>
  and yields \<open>read[i : i + kmer_size]\<close> when \<open>i + kmer_size <= len(read)\<close>. The generator is
  the list of the values it yields, in order.
\<close>

definition cut_kmer :: "string \<Rightarrow> int \<Rightarrow> string list" where
  "cut_kmer read kmer_size =
     map (\<lambda>i. py_slice read (int i) (int i + kmer_size))
         (filter (\<lambda>i. int i + kmer_size \<le> int (length read)) [0..<length read])"

text \<open>
  The dictionary \<open>dico\<close> is an association list in insertion order (Python dictionaries keep
  it, and \<open>build_graph\<close> iterates over the table). \<open>AList.update\<close> overwrites the value of a
  key that is present and appends a new key at the end.
\<close>

type_synonym kmer_dict = "(string \<times> int) list"

definition count_kmer :: "string \<Rightarrow> kmer_dict \<Rightarrow> kmer_dict" where
  "count_kmer kmer dico =
     (case map_of dico kmer of
        Some c \<Rightarrow> AList.update kmer (c + 1) dico
      | None \<Rightarrow> AList.update kmer 1 dico)"

text \<open>
  \<open>build_kmer_dict\<close> takes the reads that \<open>read_fastq\<close> yields (the file decoding itself is
  input/output and stays outside the model).
\<close>

definition build_kmer_dict :: "string list \<Rightarrow> int \<Rightarrow> kmer_dict" where
  "build_kmer_dict reads kmer_size =
     fold (\<lambda>read dico. fold count_kmer (cut_kmer read kmer_size) dico) reads []"

definition total_count :: "kmer_dict \<Rightarrow> int" where
  "total_count dico = sum_list (map snd dico)"

section \<open>The directed graph of the networkx library\<close>

text \<open>
  The program keeps the de Bruijn graph in a \<open>networkx.DiGraph\<close>. The library stores it as
  a dictionary from each node to the dictionary of its successors with the edge data; both
  keep insertion order. The model is that adjacency structure: an association list from a
  node to the association list of its successors with the edge's \<open>weight\<close>.
\<close>

type_synonym node = string
type_synonym graph = "(node \<times> (node \<times> int) list) list"

definition nodes :: "graph \<Rightarrow> node list" where
  "nodes g = map fst g"

definition has_node :: "graph \<Rightarrow> node \<Rightarrow> bool" where
  "has_node g n = (n \<in> set (nodes g))"

text \<open>\<open>G.edges(data=True)\<close>: every node in order, with each of its successors in order.\<close>

definition edges_data :: "graph \<Rightarrow> (node \<times> node \<times> int) list" where
  "edges_data g = concat (map (\<lambda>(u, nbrs). map (\<lambda>(v, w). (u, v, w)) nbrs) g)"

definition successors :: "graph \<Rightarrow> node \<Rightarrow> node list" where
  "successors g u = (case map_of g u of None \<Rightarrow> [] | Some nbrs \<Rightarrow> map fst nbrs)"

definition add_node :: "node \<Rightarrow> graph \<Rightarrow> graph" where
  "add_node n g = (if has_node g n then g else g @ [(n, [])])"

text \<open>
  \<open>G.add_edge(u, v, weight=w)\<close> adds \<open>u\<close> and then \<open>v\<close> when they are not nodes yet, and
  sets the weight of the edge, overwriting the weight of an edge that is already there.
\<close>

definition add_edge :: "node \<Rightarrow> node \<Rightarrow> int \<Rightarrow> graph \<Rightarrow> graph" where
  "add_edge u v w g = AList.map_entry u (AList.update v w) (add_node v (add_node u g))"

text \<open>
  \<open>G.remove_nodes_from(ns)\<close> removes each node of \<open>ns\<close> with all the edges that enter or
  leave it; a node that is not in the graph is skipped silently.
\<close>

definition remove_node :: "node \<Rightarrow> graph \<Rightarrow> graph" where
  "remove_node n g = map (\<lambda>(m, nbrs). (m, AList.delete n nbrs)) (AList.delete n g)"

definition remove_nodes_from :: "node list \<Rightarrow> graph \<Rightarrow> graph" where
  "remove_nodes_from ns g = fold remove_node ns g"

text \<open>\<open>G.subgraph(ns)\<close>: the nodes of \<open>ns\<close> and every edge of \<open>G\<close> with both ends in \<open>ns\<close>.\<close>

definition subgraph :: "graph \<Rightarrow> node list \<Rightarrow> graph" where
  "subgraph g ns =
     map (\<lambda>(m, nbrs). (m, filter (\<lambda>(v, w). v \<in> set ns) nbrs))
         (filter (\<lambda>(m, nbrs). m \<in> set ns) g)"

text \<open>
  \<open>nx.all_simple_paths(G, source, target)\<close> is a depth-first search that follows the
  successors in order, never enters a node already on the current path, yields the path
  when it reaches the target (and does not go beyond it), and is cut off at depth
  \<open>len(G) - 1\<close>. \<open>visited\<close> is the current path, ending in \<open>u\<close>. For a source and a target
  that are two different nodes of the graph this is what every release of the library
  does. Outside that, the releases differ and the model follows the first releases of
  networkx 2: a source or target that is not a node raises \<open>NodeNotFound\<close>, and
  \<open>source = target\<close> yields no path. (Later releases read a string target that is not a
  node as the set of its characters instead of raising, and networkx 3 yields the
  one-node path for \<open>source = target\<close>.)
\<close>

fun simple_paths_from :: "nat \<Rightarrow> graph \<Rightarrow> node list \<Rightarrow> node \<Rightarrow> node \<Rightarrow> node list list" where
  "simple_paths_from 0 g visited u target = []"
| "simple_paths_from (Suc cutoff) g visited u target =
     concat (map (\<lambda>child.
                if child \<in> set visited then []
                else if child = target then [visited @ [child]]
                else simple_paths_from cutoff g (visited @ [child]) child target)
             (successors g u))"

definition all_simple_paths :: "graph \<Rightarrow> node \<Rightarrow> node \<Rightarrow> error + node list list" where
  "all_simple_paths g source target =
     (if \<not> has_node g source \<or> \<not> has_node g target then Inl NodeNotFound
      else if source = target then Inr []
      else Inr (simple_paths_from (length g - 1) g [source] source target))"

section \<open>Sequencing of computations that may raise\<close>

definition bind_err :: "error + 'a \<Rightarrow> ('a \<Rightarrow> error + 'b) \<Rightarrow> error + 'b" where
  "bind_err m f = (case m of Inl e \<Rightarrow> Inl e | Inr x \<Rightarrow> f x)"

text \<open>A \<open>for\<close> loop over a list that updates a state and stops at the first exception.\<close>

fun for_each :: "('a \<Rightarrow> 's \<Rightarrow> error + 's) \<Rightarrow> 'a list \<Rightarrow> 's \<Rightarrow> error + 's" where
  "for_each body [] s = Inr s"
| "for_each body (x # xs) s = bind_err (body x s) (for_each body xs)"

text \<open>A list comprehension \<open>[f(x) for x in xs]\<close> whose \<open>f\<close> may raise.\<close>

fun map_err :: "('a \<Rightarrow> error + 'b) \<Rightarrow> 'a list \<Rightarrow> error + 'b list" where
  "map_err f [] = Inr []"
| "map_err f (x # xs) = bind_err (f x) (\<lambda>y. bind_err (map_err f xs) (\<lambda>ys. Inr (y # ys)))"

section \<open>Graph construction: \<open>build_graph\<close>\<close>

text \<open>
  For every k-mer of the table, in order, an edge from \<open>kmer[0:-1]\<close> (all but the last
  character) to \<open>kmer[1:]\<close> (all but the first) with the k-mer's count as weight.
\<close>

definition build_graph :: "kmer_dict \<Rightarrow> graph" where
  "build_graph kmer_dict =
     fold (\<lambda>(kmer, count) graph. add_edge (butlast kmer) (tl kmer) count graph) kmer_dict []"

text \<open>
  The round trip of the specification, \<open>u + v[-1]\<close>; indexing the empty string raises
  \<open>IndexError\<close>.
\<close>

definition last_char :: "string \<Rightarrow> error + char" where
  "last_char s = (if s = [] then Inl IndexError else Inr (last s))"

definition reconstruct_kmer :: "node \<Rightarrow> node \<Rightarrow> error + string" where
  "reconstruct_kmer u v = bind_err (last_char v) (\<lambda>c. Inr (u @ [c]))"

section \<open>Bubble resolution: \<open>remove_paths\<close>, \<open>std\<close>, \<open>select_best_path\<close>, \<open>solve_bubble\<close>\<close>

definition remove_paths :: "graph \<Rightarrow> node list list \<Rightarrow> bool \<Rightarrow> bool \<Rightarrow> graph" where
  "remove_paths graph path_list delete_entry_node delete_sink_node =
     fold (\<lambda>path graph.
             let path1 = (if \<not> delete_entry_node then tl path else path);
                 path2 = (if \<not> delete_sink_node then butlast path1 else path1)
             in remove_nodes_from path2 graph)
          path_list graph"

text \<open>
  \<open>statistics.mean\<close> raises on an empty list. \<open>statistics.stdev\<close> raises on fewer than two
  values and is otherwise the square root of the sample variance
  \<open>sum((x - mean)^2) / (n - 1)\<close>. Python computes both with exact fractions and rounds the
  result to a float; the model keeps the exact rational value. The two agree on whether
  the deviation is positive and on which value is greatest unless two different means
  round to the same float, which needs weights of the order of \<open>2^53\<close>.
\<close>

definition mean :: "int list \<Rightarrow> error + rat" where
  "mean data =
     (if data = [] then Inl StatisticsError_mean
      else Inr (of_int (sum_list data) / of_nat (length data)))"

definition variance :: "rat list \<Rightarrow> error + rat" where
  "variance data =
     (if length data < 2 then Inl StatisticsError_variance
      else let m = sum_list data / of_nat (length data)
           in Inr (sum_list (map (\<lambda>x. (x - m)\<^sup>2) data) / of_nat (length data - 1)))"

definition std :: "rat list \<Rightarrow> error + real" where
  "std data = bind_err (variance data) (\<lambda>v. Inr (sqrt (of_rat v)))"

text \<open>
  \<open>max(xs)\<close>, \<open>xs.index(x)\<close> (the first position of \<open>x\<close>) and \<open>del xs[i]\<close> for an index
  \<open>i \<ge> 0\<close>, each with the exception it raises.
\<close>

definition py_max :: "('a::linorder) list \<Rightarrow> error + 'a" where
  "py_max xs = (case xs of [] \<Rightarrow> Inl ValueError | x # rest \<Rightarrow> Inr (fold max rest x))"

fun py_index :: "'a list \<Rightarrow> 'a \<Rightarrow> error + nat" where
  "py_index [] x = Inl ValueError"
| "py_index (y # ys) x =
     (if y = x then Inr 0
      else case py_index ys x of Inl e \<Rightarrow> Inl e | Inr i \<Rightarrow> Inr (Suc i))"

definition del_at :: "'a list \<Rightarrow> nat \<Rightarrow> error + 'a list" where
  "del_at xs i = (if i < length xs then Inr (take i xs @ drop (Suc i) xs) else Inl IndexError)"

text \<open>
  \<open>select_best_path\<close>. The path that is deleted from \<open>path_list\<close> is the one that stays in
  the graph: \<open>remove_paths\<close> then removes the paths left in the list. \<open>rand\<close> is the value
  that \<open>randint(0, len(path_list))\<close> returns when the third branch is taken; \<open>randint(a, b)\<close>
  returns an integer \<open>N\<close> with \<open>a <= N <= b\<close>.
\<close>

definition select_best_path ::
  "graph \<Rightarrow> node list list \<Rightarrow> int list \<Rightarrow> rat list \<Rightarrow> nat \<Rightarrow> bool \<Rightarrow> bool \<Rightarrow> error + graph" where
  "select_best_path graph path_list path_length weight_avg_list rand
                    delete_entry_node delete_sink_node =
     bind_err
       (bind_err (std weight_avg_list) (\<lambda>s.
          if s > 0 then
            bind_err (py_max weight_avg_list) (\<lambda>m.
            bind_err (py_index weight_avg_list m) (del_at path_list))
          else
            bind_err (std (map of_int path_length)) (\<lambda>s'.
              if s' > 0 then
                bind_err (py_max path_length) (\<lambda>m.
                bind_err (py_index path_length m) (del_at path_list))
              else del_at path_list rand)))
       (\<lambda>path_list'.
          Inr (remove_paths graph path_list' delete_entry_node delete_sink_node))"

text \<open>
  \<open>path_average_weight\<close>: the mean of the weights of all the edges of the subgraph induced
  by the nodes of the path.
\<close>

definition path_average_weight :: "graph \<Rightarrow> node list \<Rightarrow> error + rat" where
  "path_average_weight graph path =
     mean (map (\<lambda>(u, v, w). w) (edges_data (subgraph graph path)))"

definition solve_bubble :: "graph \<Rightarrow> node \<Rightarrow> node \<Rightarrow> nat \<Rightarrow> error + graph" where
  "solve_bubble graph ancestor_node descendant_node rand =
     bind_err (all_simple_paths graph ancestor_node descendant_node) (\<lambda>paths.
     bind_err (map_err (path_average_weight graph) paths) (\<lambda>weight_avg_list.
       select_best_path graph paths (map (\<lambda>i. int (length i)) paths) weight_avg_list rand
                        False False))"

section \<open>Contig extraction: \<open>get_contigs\<close>\<close>

text \<open>
  The inner loop \<open>cont = path[0]; for node in path[1:]: cont = cont + node[-1]\<close>, and the
  three nested loops over the starting nodes, the ending nodes and the simple paths
  between them, appending \<open>(cont, len(cont))\<close>.
\<close>

definition contig_of_path :: "node list \<Rightarrow> error + string" where
  "contig_of_path path =
     (case path of
        [] \<Rightarrow> Inl IndexError
      | first # rest \<Rightarrow>
          for_each (\<lambda>node cont. bind_err (last_char node) (\<lambda>c. Inr (cont @ [c]))) rest first)"

definition get_contigs :: "graph \<Rightarrow> node list \<Rightarrow> node list \<Rightarrow> error + (string \<times> nat) list" where
  "get_contigs graph starting_nodes ending_nodes =
     for_each (\<lambda>start.
       for_each (\<lambda>end contigs_list.
         bind_err (all_simple_paths graph start end) (\<lambda>paths.
           for_each (\<lambda>path contigs_list.
               bind_err (contig_of_path path) (\<lambda>cont.
                 Inr (contigs_list @ [(cont, length cont)])))
             paths contigs_list))
         ending_nodes)
       starting_nodes []"

section \<open>Notions used to state the properties\<close>

text \<open>
  \<open>others xs i\<close> is the list after \<open>del xs[i]\<close>. \<open>first_max_index xs i\<close> says that \<open>i\<close> is
  the first position of the greatest element, which is what \<open>xs.index(max(xs))\<close> returns.
  \<open>trimmed\<close> is the part of a path that \<open>remove_paths\<close> hands to \<open>remove_nodes_from\<close>; with
  both flags off it is the interior of the path, \<open>butlast (tl path)\<close>.
\<close>

definition others :: "'a list \<Rightarrow> nat \<Rightarrow> 'a list" where
  "others xs i = take i xs @ drop (Suc i) xs"

definition first_max_index :: "('a::linorder) list \<Rightarrow> nat \<Rightarrow> bool" where
  "first_max_index xs i =
     (i < length xs \<and> (\<forall>j<length xs. xs ! j \<le> xs ! i) \<and> (\<forall>j<i. xs ! j < xs ! i))"

definition trimmed :: "bool \<Rightarrow> bool \<Rightarrow> node list \<Rightarrow> node list" where
  "trimmed delete_entry_node delete_sink_node path =
     (let path1 = (if \<not> delete_entry_node then tl path else path)
      in if \<not> delete_sink_node then butlast path1 else path1)"

definition removed_nodes :: "bool \<Rightarrow> bool \<Rightarrow> node list list \<Rightarrow> node set" where
  "removed_nodes delete_entry_node delete_sink_node path_list =
     set (concat (map (trimmed delete_entry_node delete_sink_node) path_list))"

text \<open>
  \<open>edge_weight g u v\<close> is the lookup \<open>G[u][v]["weight"]\<close>. \<open>distinct_keys g\<close> is the
  invariant of the dictionary of dictionaries: no node and no successor of a node is
  stored twice.
\<close>

definition edge_weight :: "graph \<Rightarrow> node \<Rightarrow> node \<Rightarrow> int option" where
  "edge_weight g u v = (case map_of g u of None \<Rightarrow> None | Some nbrs \<Rightarrow> map_of nbrs v)"

definition distinct_keys :: "graph \<Rightarrow> bool" where
  "distinct_keys g =
     (distinct (map fst g) \<and> (\<forall>(u, nbrs)\<in>set g. distinct (map fst nbrs)))"

text \<open>The edge that \<open>build_graph\<close> adds for one entry of the k-mer table.\<close>

definition kmer_edge :: "string \<times> int \<Rightarrow> (node \<times> node) \<times> int" where
  "kmer_edge entry = ((butlast (fst entry), tl (fst entry)), snd entry)"

text \<open>
  The contig of the specification for a path: the first node in full, then the last
  character of every later node. \<open>found_paths\<close> lists the simple paths in the order in which
  \<open>get_contigs\<close> visits them: by starting node, then by ending node.
\<close>

definition contig_spec :: "node list \<Rightarrow> string" where
  "contig_spec path = hd path @ map last (tl path)"

definition found_paths :: "graph \<Rightarrow> node list \<Rightarrow> node list \<Rightarrow> node list list" where
  "found_paths graph starting_nodes ending_nodes =
     concat (map (\<lambda>start.
       concat (map (\<lambda>end. case all_simple_paths graph start end of
                              Inl e \<Rightarrow> [] | Inr paths \<Rightarrow> paths)
                   ending_nodes))
       starting_nodes)"

text \<open>
  The path weight of the specification: the mean of the weights of the edges that link
  each node of the path to the next one.
\<close>

definition path_edge_weights :: "graph \<Rightarrow> node list \<Rightarrow> int list" where
  "path_edge_weights graph path =
     concat (map (\<lambda>(u, v). map (\<lambda>(a, b, w). w)
                                (filter (\<lambda>(a, b, w). a = u \<and> b = v) (edges_data graph)))
                 (zip path (tl path)))"

definition path_weight_spec :: "graph \<Rightarrow> node list \<Rightarrow> error + rat" where
  "path_weight_spec graph path = mean (path_edge_weights graph path)"

section \<open>Properties of the k-mer tabulation\<close>

lemma total_count_update_new:
  "map_of dico k = None \<Longrightarrow> total_count (AList.update k v dico) = total_count dico + v"
  unfolding total_count_def
  by (induction dico) (auto split: if_splits)

lemma total_count_update_old:
  "map_of dico k = Some c \<Longrightarrow> total_count (AList.update k v dico) = total_count dico - c + v"
  unfolding total_count_def
  by (induction dico) (auto split: if_splits)

lemma total_count_count_kmer: "total_count (count_kmer kmer dico) = total_count dico + 1"
  unfolding count_kmer_def
  by (simp add: total_count_update_new total_count_update_old split: option.split)

lemma total_count_fold_count_kmer:
  "total_count (fold count_kmer kmers dico) = total_count dico + int (length kmers)"
  by (induction kmers arbitrary: dico) (simp_all add: total_count_count_kmer)

lemma total_count_fold_reads:
  "total_count (fold (\<lambda>read dico. fold count_kmer (cut_kmer read k) dico) reads dico) =
     total_count dico + (\<Sum>read\<leftarrow>reads. int (length (cut_kmer read k)))"
  by (induction reads arbitrary: dico) (simp_all add: total_count_fold_count_kmer)

lemma total_count_build_kmer_dict:
  "total_count (build_kmer_dict reads k) = (\<Sum>read\<leftarrow>reads. int (length (cut_kmer read k)))"
proof -
  have "total_count [] = 0" by (simp add: total_count_def)
  then show ?thesis
    unfolding build_kmer_dict_def by (simp add: total_count_fold_reads)
qed

lemma filter_less_upt: "m \<le> n \<Longrightarrow> filter (\<lambda>i. i < m) [0..<n] = [0..<m]"
  by (induction n) (auto simp: le_Suc_eq)

lemma length_cut_kmer_pos:
  assumes "1 \<le> k"
  shows "int (length (cut_kmer read k)) = max 0 (int (length read) - k + 1)"
proof -
  let ?n = "length read"
  let ?m = "nat (int ?n - k + 1)"
  have le: "?m \<le> ?n" using assms by simp
  have "(\<lambda>i. int i + k \<le> int ?n) = (\<lambda>i. i < ?m)" by (rule ext) auto
  then have "filter (\<lambda>i. int i + k \<le> int ?n) [0..<?n] = [0..<?m]"
    using filter_less_upt [OF le] by simp
  then show ?thesis by (simp add: cut_kmer_def)
qed

lemma length_cut_kmer_nonpos:
  assumes "k \<le> 0"
  shows "length (cut_kmer read k) = length read"
proof -
  have "filter (\<lambda>i. int i + k \<le> int (length read)) [0..<length read] = [0..<length read]"
    using assms by (intro filter_True) auto
  then show ?thesis by (simp add: cut_kmer_def)
qed

text \<open>
  Claim C5. For every k-mer size \<open>k \<ge> 1\<close> and every sequence of reads, the counts of the
  table built by \<open>build_kmer_dict\<close> sum to the sum over the reads of
  \<open>max(0, len(read) - k + 1)\<close>, and \<open>cut_kmer\<close> yields exactly \<open>max(0, L - k + 1)\<close>
  substrings for a read of length \<open>L\<close>.
\<close>

theorem kmer_table_total_count:
  assumes "1 \<le> k"
  shows "total_count (build_kmer_dict reads k) =
           (\<Sum>read\<leftarrow>reads. max 0 (int (length read) - k + 1))
         \<and> int (length (cut_kmer read k)) = max 0 (int (length read) - k + 1)"
proof -
  have "(\<Sum>r\<leftarrow>reads. int (length (cut_kmer r k))) =
        (\<Sum>r\<leftarrow>reads. max 0 (int (length r) - k + 1))"
    using assms by (simp add: length_cut_kmer_pos)
  then show ?thesis
    using assms by (simp add: total_count_build_kmer_dict length_cut_kmer_pos)
qed

theorem kmer_table_total_count_witness:
  "(1::int) \<le> 3
   \<and> total_count (build_kmer_dict [''AATCGA'', ''ATCGAT'', ''AC''] 3) = 8
   \<and> length (cut_kmer ''AATCGA'' 3) = 4"
  using kmer_table_total_count [of 3 "[''AATCGA'', ''ATCGAT'', ''AC'']" "''AATCGA''"]
  by simp

text \<open>
  Claim C7, as amended. For the reads \<open>["AATCGA", "ATCGAT"]\<close> and \<open>k = 3\<close> the table is
  \<open>{"AAT":1, "ATC":2, "TCG":2, "CGA":2, "GAT":1}\<close>: the k-mer \<open>TCG\<close> occurs once in each
  read, so its count is 2.
\<close>

theorem kmer_table_scenario:
  "build_kmer_dict [''AATCGA'', ''ATCGAT''] 3 =
     [(''AAT'', 1), (''ATC'', 2), (''TCG'', 2), (''CGA'', 2), (''GAT'', 1)]"
  by code_simp

text \<open>
  Claim C7 as the specification states it, with the count 1 for \<open>TCG\<close>, does not hold:
  the table of the program differs from the stated one at the key \<open>TCG\<close>.
\<close>

theorem kmer_table_scenario_counterexample:
  "map_of (build_kmer_dict [''AATCGA'', ''ATCGAT''] 3) ''TCG'' = Some 2
   \<and> map_of (build_kmer_dict [''AATCGA'', ''ATCGAT''] 3)
       \<noteq> map_of [(''AAT'', 1), (''ATC'', 2), (''TCG'', 1), (''CGA'', 2), (''GAT'', 1)]"
proof -
  have v: "map_of (build_kmer_dict [''AATCGA'', ''ATCGAT''] 3) ''TCG'' = Some 2"
    by code_simp
  have w: "map_of [(''AAT'', 1), (''ATC'', 2), (''TCG'', 1), (''CGA'', 2), (''GAT'', 1::int)]
             ''TCG'' = Some 1"
    by simp
  have "Some (2::int) \<noteq> Some 1" by simp
  with v w show ?thesis by metis
qed

lemma cut_kmer_nonpos:
  assumes "k \<le> 0"
  shows "cut_kmer read k = map (\<lambda>i. py_slice read (int i) (int i + k)) [0..<length read]"
proof -
  have "filter (\<lambda>i. int i + k \<le> int (length read)) [0..<length read] = [0..<length read]"
    using assms by (intro filter_True) auto
  then show ?thesis by (simp add: cut_kmer_def)
qed

lemma map_of_count_kmer:
  "map_of (count_kmer kmer dico) =
     (map_of dico)(kmer \<mapsto> (case map_of dico kmer of None \<Rightarrow> 1 | Some c \<Rightarrow> c + 1))"
  by (simp add: count_kmer_def update_conv' split: option.split)

lemma map_of_fold_count_kmer:
  "map_of (fold count_kmer kmers dico) x =
     (case map_of dico x of
        None \<Rightarrow> if count_list kmers x = 0 then None else Some (int (count_list kmers x))
      | Some c \<Rightarrow> Some (c + int (count_list kmers x)))"
proof (induction kmers arbitrary: dico)
  case Nil
  show ?case by (simp split: option.split)
next
  case (Cons kmer kmers)
  show ?case
    by (simp add: Cons map_of_count_kmer split: option.split)
qed

lemma fold_reads_concat:
  "fold (\<lambda>read dico. fold count_kmer (f read) dico) reads dico =
     fold count_kmer (concat (map f reads)) dico"
  by (induction reads arbitrary: dico) simp_all

lemma map_of_build_kmer_dict:
  "map_of (build_kmer_dict reads k) x =
     (if count_list (concat (map (\<lambda>read. cut_kmer read k) reads)) x = 0 then None
      else Some (int (count_list (concat (map (\<lambda>read. cut_kmer read k) reads)) x)))"
  by (simp add: build_kmer_dict_def fold_reads_concat map_of_fold_count_kmer)

lemma distinct_count_kmer: "distinct (map fst dico) \<Longrightarrow> distinct (map fst (count_kmer kmer dico))"
  by (simp add: count_kmer_def distinct_update split: option.split)

lemma distinct_fold_count_kmer:
  "distinct (map fst dico) \<Longrightarrow> distinct (map fst (fold count_kmer kmers dico))"
  by (induction kmers arbitrary: dico) (simp_all add: distinct_count_kmer)

lemma distinct_build_kmer_dict: "distinct (map fst (build_kmer_dict reads k))"
  by (simp add: build_kmer_dict_def fold_reads_concat distinct_fold_count_kmer)

text \<open>
  Claim C8, as amended. The program validates nothing: \<open>cut_kmer\<close> and \<open>build_kmer_dict\<close>
  have no \<open>raise\<close>, and for a k-mer size \<open>k \<le> 0\<close> the tabulation returns a table. Every
  start position \<open>i\<close> of a read passes the test \<open>i + k <= len(read)\<close>, so \<open>cut_kmer\<close> yields
  the slice \<open>read[i : i + k]\<close> for every position of the read, in order. The table has each
  of these slices as a key once, with the number of its occurrences among the slices of
  all the reads as count, and no other key; the counts sum to the total number of
  characters of the reads.
\<close>

theorem kmer_table_nonpositive_size:
  assumes "k \<le> 0"
  shows "cut_kmer read k = map (\<lambda>i. py_slice read (int i) (int i + k)) [0..<length read]
         \<and> map_of (build_kmer_dict reads k) kmer =
             (if count_list (concat (map (\<lambda>read.
                   map (\<lambda>i. py_slice read (int i) (int i + k)) [0..<length read]) reads)) kmer = 0
              then None
              else Some (int (count_list (concat (map (\<lambda>read.
                   map (\<lambda>i. py_slice read (int i) (int i + k)) [0..<length read]) reads)) kmer)))
         \<and> distinct (map fst (build_kmer_dict reads k))
         \<and> total_count (build_kmer_dict reads k) = (\<Sum>read\<leftarrow>reads. int (length read))"
proof -
  have "(\<lambda>read. cut_kmer read k) =
        (\<lambda>read. map (\<lambda>i. py_slice read (int i) (int i + k)) [0..<length read])"
    using assms by (simp add: cut_kmer_nonpos)
  then have "map_of (build_kmer_dict reads k) kmer =
             (if count_list (concat (map (\<lambda>read.
                   map (\<lambda>i. py_slice read (int i) (int i + k)) [0..<length read]) reads)) kmer = 0
              then None
              else Some (int (count_list (concat (map (\<lambda>read.
                   map (\<lambda>i. py_slice read (int i) (int i + k)) [0..<length read]) reads)) kmer)))"
    using map_of_build_kmer_dict [of reads k kmer] by simp
  moreover have "total_count (build_kmer_dict reads k) = (\<Sum>read\<leftarrow>reads. int (length read))"
    using assms by (simp add: total_count_build_kmer_dict length_cut_kmer_nonpos)
  ultimately show ?thesis
    using assms by (simp add: cut_kmer_nonpos distinct_build_kmer_dict)
qed

theorem kmer_table_nonpositive_size_witness:
  "(- 1 :: int) \<le> 0
   \<and> cut_kmer ''ACGT'' (- 1) = [''ACG'', '''', '''', '''']
   \<and> map_of (build_kmer_dict [''ACGT'', ''AC''] (- 1)) ''ACG'' = Some 1
   \<and> map_of (build_kmer_dict [''ACGT'', ''AC''] (- 1)) ''A'' = Some 1
   \<and> map_of (build_kmer_dict [''ACGT'', ''AC''] (- 1)) '''' = Some 4
   \<and> map_of (build_kmer_dict [''ACGT'', ''AC''] (- 1)) ''AC'' = None
   \<and> total_count (build_kmer_dict [''ACGT'', ''AC''] (- 1)) = 6"
proof -
  have k: "(- 1 :: int) \<le> 0" by simp
  have up4: "[0..<4] = [0, 1, 2, 3]" and up2: "[0..<2] = [0, 1]"
    by (simp_all add: upt_rec)
  note t = kmer_table_nonpositive_size [OF k, of "''ACGT''" "[''ACGT'', ''AC'']"]
  have c: "cut_kmer ''ACGT'' (- 1) = [''ACG'', '''', '''', '''']"
    using t [of "[]"] by (simp add: up4 py_slice_def Let_def)
  have m1: "map_of (build_kmer_dict [''ACGT'', ''AC''] (- 1)) ''ACG'' = Some 1"
    using t [of "''ACG''"] by (simp add: up4 up2 py_slice_def Let_def)
  have m2: "map_of (build_kmer_dict [''ACGT'', ''AC''] (- 1)) ''A'' = Some 1"
    using t [of "''A''"] by (simp add: up4 up2 py_slice_def Let_def)
  have m3: "map_of (build_kmer_dict [''ACGT'', ''AC''] (- 1)) '''' = Some 4"
    using t [of "[]"] by (simp add: up4 up2 py_slice_def Let_def)
  have m4: "map_of (build_kmer_dict [''ACGT'', ''AC''] (- 1)) ''AC'' = None"
    using t [of "''AC''"] by (simp add: up4 up2 py_slice_def Let_def)
  have tc: "total_count (build_kmer_dict [''ACGT'', ''AC''] (- 1)) = 6"
    using t [of "[]"] by simp
  from k c m1 m2 m3 m4 tc show ?thesis by (intro conjI)
qed

text \<open>
  Claim C8 as the specification states it does not hold: with \<open>k = 0\<close> the tabulation of
  the read \<open>AC\<close> returns the table \<open>{"": 2}\<close> instead of failing, and with \<open>k = -1\<close> the
  tabulation of \<open>ACGT\<close> returns \<open>{"ACG": 1, "": 3}\<close>.
\<close>

theorem kmer_table_nonpositive_size_counterexample:
  "build_kmer_dict [''AC''] 0 = [('''', 2)]
   \<and> build_kmer_dict [''ACGT''] (- 1) = [(''ACG'', 1), ('''', 3)]"
  by code_simp

section \<open>Statistics, maximum and index\<close>

lemma sum_list_const: "\<forall>x\<in>set xs. x = c \<Longrightarrow> sum_list xs = of_nat (length xs) * (c::rat)"
  by (induction xs) (auto simp: algebra_simps)

lemma sum_squares_zero_iff:
  "sum_list (map (\<lambda>x. (x - m)\<^sup>2) data) = 0 \<longleftrightarrow> (\<forall>x\<in>set data. x = (m::rat))"
proof -
  have "\<And>y. y \<in> set (map (\<lambda>x. (x - m)\<^sup>2) data) \<Longrightarrow> 0 \<le> y" by auto
  then have "sum_list (map (\<lambda>x. (x - m)\<^sup>2) data) = 0 \<longleftrightarrow>
             (\<forall>y\<in>set (map (\<lambda>x. (x - m)\<^sup>2) data). y = 0)"
    by (rule sum_list_nonneg_eq_0_iff)
  then show ?thesis by simp
qed

lemma sum_squares_nonneg: "0 \<le> sum_list (map (\<lambda>x. (x - m)\<^sup>2) data)" for m :: rat
  by (rule sum_list_nonneg) auto

lemma variance_Inr:
  "2 \<le> length data \<Longrightarrow> \<exists>v. variance data = Inr v \<and> 0 \<le> v"
  by (auto simp: variance_def Let_def sum_squares_nonneg)

lemma variance_zero_iff:
  assumes "2 \<le> length data"
  shows "variance data = Inr 0 \<longleftrightarrow> (\<forall>x\<in>set data. x = hd data)"
proof -
  let ?n = "length data"
  let ?m = "sum_list data / of_nat ?n"
  have n: "0 < ?n" "0 < ?n - 1" "data \<noteq> []" using assms by auto
  have v: "variance data = Inr (sum_list (map (\<lambda>x. (x - ?m)\<^sup>2) data) / of_nat (?n - 1))"
    using assms by (simp add: variance_def Let_def)
  have "variance data = Inr 0 \<longleftrightarrow> sum_list (map (\<lambda>x. (x - ?m)\<^sup>2) data) = 0"
    using n unfolding v by simp
  also have "\<dots> \<longleftrightarrow> (\<forall>x\<in>set data. x = ?m)" by (rule sum_squares_zero_iff)
  also have "\<dots> \<longleftrightarrow> (\<forall>x\<in>set data. x = hd data)"
  proof
    assume a: "\<forall>x\<in>set data. x = ?m"
    then have "hd data = ?m" using n by simp
    with a show "\<forall>x\<in>set data. x = hd data" by simp
  next
    assume a: "\<forall>x\<in>set data. x = hd data"
    then have "sum_list data = of_nat ?n * hd data" by (rule sum_list_const)
    then have "?m = hd data" using n by simp
    with a show "\<forall>x\<in>set data. x = ?m" by simp
  qed
  finally show ?thesis .
qed

lemma std_pos_iff:
  "std data = Inr s \<Longrightarrow> 0 < s \<longleftrightarrow> (\<exists>v. variance data = Inr v \<and> 0 < v)"
  by (auto simp: std_def bind_err_def split: sum.splits)

lemma std_Inl: "variance data = Inl e \<Longrightarrow> std data = Inl e"
  by (simp add: std_def bind_err_def)

lemma std_Inr: "variance data = Inr v \<Longrightarrow> std data = Inr (sqrt (of_rat v))"
  by (simp add: std_def bind_err_def)

lemma py_max_Max:
  assumes "xs \<noteq> []"
  shows "py_max xs = Inr (Max (set xs))"
proof (cases xs)
  case Nil with assms show ?thesis by simp
next
  case (Cons a list)
  have "fold max list a = Max (set (a # list))" by (rule Max.set_eq_fold [symmetric])
  with Cons show ?thesis by (simp add: py_max_def)
qed

lemma py_index_first:
  "x \<in> set xs \<Longrightarrow> \<exists>i. py_index xs x = Inr i \<and> i < length xs \<and> xs ! i = x \<and> (\<forall>j<i. xs ! j \<noteq> x)"
proof (induction xs)
  case Nil then show ?case by simp
next
  case (Cons y ys)
  show ?case
  proof (cases "y = x")
    case True then show ?thesis by simp
  next
    case False
    with Cons obtain i where i: "py_index ys x = Inr i" "i < length ys" "ys ! i = x" "\<forall>j<i. ys ! j \<noteq> x"
      by auto
    have "\<forall>j<Suc i. (y # ys) ! j \<noteq> x"
      using False i(4) by (auto simp: nth_Cons split: nat.splits)
    with False i show ?thesis by simp
  qed
qed

section \<open>Removing nodes and paths\<close>

lemma nodes_remove_node: "nodes (remove_node n g) = filter (\<lambda>m. m \<noteq> n) (nodes g)"
  by (induction g) (auto simp: nodes_def remove_node_def AList.delete_eq)

lemma edges_data_remove_node:
  "edges_data (remove_node n g) = filter (\<lambda>(u, v, w). u \<noteq> n \<and> v \<noteq> n) (edges_data g)"
proof (induction g)
  case Nil
  show ?case by (simp add: edges_data_def remove_node_def AList.delete_eq)
next
  case (Cons a g)
  obtain m nbrs where a: "a = (m, nbrs)" by (cases a)
  have nb: "map (\<lambda>(v, w). (m, v, w)) (filter (\<lambda>(k, _). n \<noteq> k) nbrs) =
            filter (\<lambda>(u, v, w). m \<noteq> n \<and> v \<noteq> n) (map (\<lambda>(v, w). (m, v, w)) nbrs)" if "m \<noteq> n"
    using that by (induction nbrs) auto
  have nb0: "filter (\<lambda>(u, v, w). u \<noteq> n \<and> v \<noteq> n) (map (\<lambda>(v, w). (n, v, w)) nbrs) = []"
    by (induction nbrs) auto
  have nb1: "filter (\<lambda>(u, v, w). u \<noteq> n \<and> v \<noteq> n) (map (\<lambda>(v, w). (m, v, w)) nbrs) =
             filter (\<lambda>(u, v, w). m \<noteq> n \<and> v \<noteq> n) (map (\<lambda>(v, w). (m, v, w)) nbrs)"
    by (induction nbrs) auto
  from Cons have ih: "edges_data (map (\<lambda>(m, nbrs). (m, AList.delete n nbrs)) (AList.delete n g)) =
                      filter (\<lambda>(u, v, w). u \<noteq> n \<and> v \<noteq> n) (edges_data g)"
    by (simp add: remove_node_def)
  show ?case
  proof (cases "m = n")
    case True
    with a ih nb0 show ?thesis
      by (simp add: remove_node_def edges_data_def AList.delete_eq)
  next
    case False
    with a ih nb [OF False] nb1 show ?thesis
      by (simp add: remove_node_def edges_data_def AList.delete_eq)
  qed
qed

lemma nodes_remove_nodes_from:
  "nodes (remove_nodes_from ns g) = filter (\<lambda>m. m \<notin> set ns) (nodes g)"
proof (induction ns arbitrary: g)
  case Nil
  show ?case by (simp add: remove_nodes_from_def)
next
  case (Cons n ns)
  have "nodes (remove_nodes_from (n # ns) g) = nodes (remove_nodes_from ns (remove_node n g))"
    by (simp add: remove_nodes_from_def)
  also have "\<dots> = filter (\<lambda>m. m \<notin> set ns) (filter (\<lambda>m. m \<noteq> n) (nodes g))"
    by (simp add: Cons nodes_remove_node)
  also have "\<dots> = filter (\<lambda>m. m \<notin> set (n # ns)) (nodes g)"
    by (simp add: conj_commute)
  finally show ?case .
qed

lemma edges_data_remove_nodes_from:
  "edges_data (remove_nodes_from ns g) =
     filter (\<lambda>(u, v, w). u \<notin> set ns \<and> v \<notin> set ns) (edges_data g)"
proof (induction ns arbitrary: g)
  case Nil
  show ?case by (simp add: remove_nodes_from_def)
next
  case (Cons n ns)
  have "edges_data (remove_nodes_from (n # ns) g) =
        edges_data (remove_nodes_from ns (remove_node n g))"
    by (simp add: remove_nodes_from_def)
  also have "\<dots> = filter (\<lambda>(u, v, w). u \<notin> set ns \<and> v \<notin> set ns)
                      (filter (\<lambda>(u, v, w). u \<noteq> n \<and> v \<noteq> n) (edges_data g))"
    by (simp add: Cons edges_data_remove_node)
  also have "\<dots> = filter (\<lambda>(u, v, w). u \<notin> set (n # ns) \<and> v \<notin> set (n # ns)) (edges_data g)"
    by (auto intro!: filter_cong)
  finally show ?case .
qed

lemma remove_paths_Cons:
  "remove_paths g (p # ps) de ds = remove_paths (remove_nodes_from (trimmed de ds p) g) ps de ds"
  by (simp add: remove_paths_def trimmed_def Let_def)

lemma nodes_remove_paths:
  "nodes (remove_paths g path_list de ds) =
     filter (\<lambda>n. n \<notin> removed_nodes de ds path_list) (nodes g)"
proof (induction path_list arbitrary: g)
  case Nil
  show ?case by (simp add: remove_paths_def removed_nodes_def)
next
  case (Cons p ps)
  have "nodes (remove_paths g (p # ps) de ds) =
        filter (\<lambda>n. n \<notin> removed_nodes de ds ps) (filter (\<lambda>m. m \<notin> set (trimmed de ds p)) (nodes g))"
    by (simp add: remove_paths_Cons Cons nodes_remove_nodes_from)
  also have "\<dots> = filter (\<lambda>n. n \<notin> removed_nodes de ds (p # ps)) (nodes g)"
    by (auto simp: removed_nodes_def intro!: filter_cong)
  finally show ?case .
qed

lemma edges_data_remove_paths:
  "edges_data (remove_paths g path_list de ds) =
     filter (\<lambda>(u, v, w). u \<notin> removed_nodes de ds path_list \<and> v \<notin> removed_nodes de ds path_list)
            (edges_data g)"
proof (induction path_list arbitrary: g)
  case Nil
  show ?case by (simp add: remove_paths_def removed_nodes_def)
next
  case (Cons p ps)
  have "edges_data (remove_paths g (p # ps) de ds) =
        filter (\<lambda>(u, v, w). u \<notin> removed_nodes de ds ps \<and> v \<notin> removed_nodes de ds ps)
          (filter (\<lambda>(u, v, w). u \<notin> set (trimmed de ds p) \<and> v \<notin> set (trimmed de ds p))
             (edges_data g))"
    by (simp add: remove_paths_Cons Cons edges_data_remove_nodes_from)
  also have "\<dots> = filter (\<lambda>(u, v, w). u \<notin> removed_nodes de ds (p # ps)
                                     \<and> v \<notin> removed_nodes de ds (p # ps)) (edges_data g)"
    by (auto simp: removed_nodes_def intro!: filter_cong)
  finally show ?case .
qed

lemma trimmed_default: "trimmed False False path = butlast (tl path)"
  by (simp add: trimmed_def)

section \<open>The three branches of \<open>select_best_path\<close>\<close>

lemma first_max_index_py:
  assumes "xs \<noteq> []"
  shows "\<exists>i. py_max xs = Inr (xs ! i) \<and> py_index xs (xs ! i) = Inr i \<and> first_max_index xs i"
proof -
  let ?m = "Max (set xs)"
  have "?m \<in> set xs" using assms by (intro Max_in) auto
  then have "\<exists>i. py_index xs ?m = Inr i \<and> i < length xs \<and> xs ! i = ?m
                 \<and> (\<forall>j<i. xs ! j \<noteq> ?m)"
    by (rule py_index_first)
  then obtain i where i: "py_index xs ?m = Inr i" "i < length xs" "xs ! i = ?m"
                        "\<forall>j<i. xs ! j \<noteq> ?m"
    by (elim exE conjE)
  have le: "xs ! j \<le> ?m" if "j < length xs" for j
    using that by (intro Max_ge) auto
  have "xs ! j < ?m" if "j < i" for j
    using le [of j] i(2,4) that by (simp add: less_le)
  with i le have fmi: "first_max_index xs i" by (simp add: first_max_index_def)
  have "py_max xs = Inr (xs ! i)" using py_max_Max [OF assms] i(3) by simp
  moreover have "py_index xs (xs ! i) = Inr i" using i(1,3) by simp
  ultimately show ?thesis using fmi by (intro exI [of _ i]) simp
qed

lemma variance_length: "variance data = Inr v \<Longrightarrow> 2 \<le> length data"
  by (simp add: variance_def split: if_splits)

lemma select_best_path_weight_branch:
  assumes "length weight_avg_list = length path_list"
      and "variance weight_avg_list = Inr v" and "0 < v"
  shows "\<exists>i. first_max_index weight_avg_list i
             \<and> select_best_path graph path_list path_length weight_avg_list rand de ds =
                 Inr (remove_paths graph (others path_list i) de ds)"
proof -
  have "weight_avg_list \<noteq> []" using variance_length [OF assms(2)] by auto
  then obtain i where i: "py_max weight_avg_list = Inr (weight_avg_list ! i)"
      "py_index weight_avg_list (weight_avg_list ! i) = Inr i" "first_max_index weight_avg_list i"
    using first_max_index_py by blast
  have "i < length path_list" using i(3) assms(1) by (simp add: first_max_index_def)
  then have "del_at path_list i = Inr (others path_list i)"
    by (simp add: del_at_def others_def)
  with i(1,2) assms(2,3)
  have "select_best_path graph path_list path_length weight_avg_list rand de ds =
          Inr (remove_paths graph (others path_list i) de ds)"
    by (simp add: select_best_path_def std_def bind_err_def)
  with i(3) show ?thesis by blast
qed

lemma select_best_path_length_branch:
  assumes "length path_length = length path_list"
      and "variance weight_avg_list = Inr 0"
      and "variance (map of_int path_length) = Inr v" and "0 < v"
  shows "\<exists>i. first_max_index path_length i
             \<and> select_best_path graph path_list path_length weight_avg_list rand de ds =
                 Inr (remove_paths graph (others path_list i) de ds)"
proof -
  have "path_length \<noteq> []" using variance_length [OF assms(3)] by auto
  then obtain i where i: "py_max path_length = Inr (path_length ! i)"
      "py_index path_length (path_length ! i) = Inr i" "first_max_index path_length i"
    using first_max_index_py by blast
  have "i < length path_list" using i(3) assms(1) by (simp add: first_max_index_def)
  then have "del_at path_list i = Inr (others path_list i)"
    by (simp add: del_at_def others_def)
  with i(1,2) assms(2,3,4)
  have "select_best_path graph path_list path_length weight_avg_list rand de ds =
          Inr (remove_paths graph (others path_list i) de ds)"
    by (simp add: select_best_path_def std_def bind_err_def)
  with i(3) show ?thesis by blast
qed

lemma select_best_path_random_branch:
  assumes "variance weight_avg_list = Inr 0"
      and "variance (map of_int path_length) = Inr 0"
  shows "select_best_path graph path_list path_length weight_avg_list rand de ds =
           (if rand < length path_list
            then Inr (remove_paths graph (others path_list rand) de ds)
            else Inl IndexError)"
  using assms by (simp add: select_best_path_def std_def bind_err_def del_at_def others_def)

lemma select_best_path_code [code]:
  "select_best_path graph path_list path_length weight_avg_list rand
                    delete_entry_node delete_sink_node =
     bind_err
       (bind_err (variance weight_avg_list) (\<lambda>s.
          if s > 0 then
            bind_err (py_max weight_avg_list) (\<lambda>m.
            bind_err (py_index weight_avg_list m) (del_at path_list))
          else
            bind_err (variance (map of_int path_length)) (\<lambda>s'.
              if s' > 0 then
                bind_err (py_max path_length) (\<lambda>m.
                bind_err (py_index path_length m) (del_at path_list))
              else del_at path_list rand)))
       (\<lambda>path_list'.
          Inr (remove_paths graph path_list' delete_entry_node delete_sink_node))"
  by (simp add: select_best_path_def std_def bind_err_def split: sum.splits)

section \<open>Paths found by \<open>all_simple_paths\<close> and their induced subgraph\<close>

lemma edges_data_Cons:
  "edges_data ((u, nbrs) # g) = map (\<lambda>(v, w). (u, v, w)) nbrs @ edges_data g"
  by (simp add: edges_data_def)

lemma set_edges_data:
  "(u, v, w) \<in> set (edges_data g) \<longleftrightarrow> (\<exists>nbrs. (u, nbrs) \<in> set g \<and> (v, w) \<in> set nbrs)"
  by (induction g) (auto simp: edges_data_def)

lemma edges_data_subgraph:
  "edges_data (subgraph g ns) =
     filter (\<lambda>(u, v, w). u \<in> set ns \<and> v \<in> set ns) (edges_data g)"
proof (induction g)
  case Nil
  show ?case by (simp add: subgraph_def edges_data_def)
next
  case (Cons a g)
  obtain m nbrs where a: "a = (m, nbrs)" by (cases a)
  have sub: "subgraph ((m, nbrs) # g) ns =
      (if m \<in> set ns then (m, filter (\<lambda>(v, w). v \<in> set ns) nbrs) # subgraph g ns
       else subgraph g ns)"
    by (simp add: subgraph_def)
  have nb: "map (\<lambda>(v, w). (m, v, w)) (filter (\<lambda>(v, w). v \<in> set ns) nbrs) =
            filter (\<lambda>(u, v, w). u \<in> set ns \<and> v \<in> set ns) (map (\<lambda>(v, w). (m, v, w)) nbrs)"
    if "m \<in> set ns"
    using that by (induction nbrs) auto
  have nb0: "filter (\<lambda>(u, v, w). u \<in> set ns \<and> v \<in> set ns) (map (\<lambda>(v, w). (m, v, w)) nbrs) = []"
    if "m \<notin> set ns"
    using that by (induction nbrs) auto
  show ?case
  proof (cases "m \<in> set ns")
    case True
    have "edges_data (subgraph ((m, nbrs) # g) ns) =
            map (\<lambda>(v, w). (m, v, w)) (filter (\<lambda>(v, w). v \<in> set ns) nbrs)
            @ edges_data (subgraph g ns)"
      using True by (simp only: sub if_True edges_data_Cons)
    also have "\<dots> = filter (\<lambda>(u, v, w). u \<in> set ns \<and> v \<in> set ns)
                         (edges_data ((m, nbrs) # g))"
      by (simp only: nb [OF True] Cons edges_data_Cons filter_append)
    finally show ?thesis by (simp only: a)
  next
    case False
    have "edges_data (subgraph ((m, nbrs) # g) ns) = edges_data (subgraph g ns)"
      using False by (simp only: sub if_False)
    also have "\<dots> = filter (\<lambda>(u, v, w). u \<in> set ns \<and> v \<in> set ns)
                         (edges_data ((m, nbrs) # g))"
      by (simp only: nb0 [OF False] Cons edges_data_Cons filter_append append_Nil)
    finally show ?thesis by (simp only: a)
  qed
qed

lemma successors_edge:
  assumes "child \<in> set (successors g u)"
  shows "\<exists>w. (u, child, w) \<in> set (edges_data g)"
proof -
  show ?thesis
  proof (cases "map_of g u")
    case None
    with assms show ?thesis by (simp add: successors_def)
  next
    case (Some nbrs)
    with assms have "child \<in> fst ` set nbrs" by (simp add: successors_def)
    then obtain w where "(child, w) \<in> set nbrs" by auto
    moreover have "(u, nbrs) \<in> set g" using Some by (rule map_of_SomeD)
    ultimately show ?thesis by (auto simp: set_edges_data)
  qed
qed

lemma simple_paths_from_shape:
  "p \<in> set (simple_paths_from c g visited u t) \<Longrightarrow>
     \<exists>child rest. p = visited @ child # rest \<and> child \<in> set (successors g u)"
proof (induction c arbitrary: visited u)
  case 0
  then show ?case by simp
next
  case (Suc c)
  from Suc.prems obtain child where child: "child \<in> set (successors g u)" "child \<notin> set visited"
      and p: "(child = t \<and> p = visited @ [child])
              \<or> (child \<noteq> t \<and> p \<in> set (simple_paths_from c g (visited @ [child]) child t))"
    by (auto split: if_splits)
  from p show ?case
  proof
    assume "child = t \<and> p = visited @ [child]"
    with child show ?thesis by blast
  next
    assume "child \<noteq> t \<and> p \<in> set (simple_paths_from c g (visited @ [child]) child t)"
    then obtain child' rest where "p = (visited @ [child]) @ child' # rest"
      using Suc.IH by blast
    then have "p = visited @ child # (child' # rest)" by simp
    with child show ?thesis by blast
  qed
qed

lemma path_average_weight_found_path:
  assumes "all_simple_paths g source target = Inr paths" and "p \<in> set paths"
  shows "\<exists>x. path_average_weight g p = Inr x"
proof -
  from assms have "p \<in> set (simple_paths_from (length g - 1) g [source] source target)"
    by (auto simp: all_simple_paths_def split: if_splits)
  then obtain child rest where p: "p = [source] @ child # rest"
      and child: "child \<in> set (successors g source)"
    using simple_paths_from_shape by blast
  from successors_edge [OF child] obtain w where "(source, child, w) \<in> set (edges_data g)" ..
  with p have "(source, child, w) \<in> set (edges_data (subgraph g p))"
    by (simp add: edges_data_subgraph)
  then have "edges_data (subgraph g p) \<noteq> []" by auto
  then show ?thesis by (simp add: path_average_weight_def mean_def)
qed

lemma select_best_path_too_few:
  "length weight_avg_list < 2 \<Longrightarrow>
     select_best_path graph path_list path_length weight_avg_list rand de ds =
       Inl StatisticsError_variance"
  by (simp add: select_best_path_def std_def variance_def bind_err_def)

lemma solve_bubble_too_few:
  assumes "all_simple_paths g a d = Inr paths" and "length paths < 2"
  shows "solve_bubble g a d rand = Inl StatisticsError_variance"
proof (cases paths)
  case Nil
  with assms(1) show ?thesis
    by (simp add: solve_bubble_def bind_err_def select_best_path_too_few)
next
  case (Cons p ps)
  with assms(2) have paths: "paths = [p]" by simp
  then obtain x where "path_average_weight g p = Inr x"
    using path_average_weight_found_path [OF assms(1), of p] by auto
  with assms(1) paths show ?thesis
    by (simp add: solve_bubble_def bind_err_def select_best_path_too_few)
qed

section \<open>Claims about \<open>select_best_path\<close> and \<open>solve_bubble\<close>\<close>

text \<open>
  Claim C10. \<open>select_best_path\<close> needs at least two candidate paths: called with fewer
  than two paths (and the list of their average weights, one per path), the standard
  deviation of the weights raises \<open>StatisticsError\<close> and no graph is returned. Hence
  \<open>solve_bubble\<close> raises it as well when the enumeration of the simple paths between the
  two nodes yields fewer than two paths.
\<close>

theorem fewer_than_two_paths_raises:
  assumes "length path_list < 2" and "length weight_avg_list = length path_list"
  shows "select_best_path graph path_list path_length weight_avg_list rand de ds =
           Inl StatisticsError_variance
         \<and> (all_simple_paths graph ancestor_node descendant_node = Inr path_list \<longrightarrow>
              solve_bubble graph ancestor_node descendant_node rand =
                Inl StatisticsError_variance)"
  using assms by (simp add: select_best_path_too_few solve_bubble_too_few)

theorem fewer_than_two_paths_raises_witness:
  "length [[''A'', ''B'', ''D'']] < 2
   \<and> length [2 :: rat] = length [[''A'', ''B'', ''D'']]
   \<and> select_best_path [(''A'', [(''B'', 2)]), (''B'', [(''D'', 2)]), (''D'', [])]
        [[''A'', ''B'', ''D'']] [3] [2] 0 False False = Inl StatisticsError_variance
   \<and> all_simple_paths [(''A'', [(''B'', 2)]), (''B'', [(''D'', 2)]), (''D'', [])] ''A'' ''D''
        = Inr [[''A'', ''B'', ''D'']]
   \<and> solve_bubble [(''A'', [(''B'', 2)]), (''B'', [(''D'', 2)]), (''D'', [])] ''A'' ''D'' 0
        = Inl StatisticsError_variance"
proof -
  have paths: "all_simple_paths [(''A'', [(''B'', 2)]), (''B'', [(''D'', 2)]), (''D'', [])]
                 ''A'' ''D'' = Inr [[''A'', ''B'', ''D'']]"
    by code_simp
  show ?thesis
    using paths
      fewer_than_two_paths_raises [of "[[''A'', ''B'', ''D'']]" "[2]"
        "[(''A'', [(''B'', 2)]), (''B'', [(''D'', 2)]), (''D'', [])]" "[3]" 0 False False
        "''A''" "''D''"]
    by simp
qed

text \<open>
  Claim C9, at its failing input. Two candidate paths are tied on weight and on length,
  and \<open>randint(0, len(path_list))\<close> returns its upper bound 2, which it can: the bound is
  inclusive. \<open>del path_list[2]\<close> then raises \<open>IndexError\<close>. With the draws 0 and 1 the
  call returns a graph.
\<close>

theorem random_tie_break_index_out_of_range:
  "select_best_path
     [(''A'', [(''B'', 2), (''C'', 2)]), (''B'', [(''D'', 2)]), (''C'', [(''D'', 2)]), (''D'', [])]
     [[''A'', ''B'', ''D''], [''A'', ''C'', ''D'']] [3, 3] [2, 2] 2 False False
   = Inl IndexError"
  by code_simp

text \<open>
  Claim C3, as amended. When the average weights of the candidate paths have non-zero
  variance, the first path with the greatest average weight is taken out of the list and
  \<open>remove_paths\<close> removes, for every other candidate, the nodes of its trimmed path (with
  the default flags: all its nodes but the first and the last) together with their edges.
  Every other node and every edge between two other nodes stays. So the kept path and the
  end nodes survive intact exactly as far as they are not interior nodes of another
  candidate.
\<close>

theorem select_best_path_keeps_heaviest:
  assumes "length weight_avg_list = length path_list"
      and "variance weight_avg_list = Inr v" and "0 < v"
  shows "\<exists>i graph'.
           first_max_index weight_avg_list i
         \<and> select_best_path graph path_list path_length weight_avg_list rand de ds = Inr graph'
         \<and> nodes graph' =
             filter (\<lambda>n. n \<notin> removed_nodes de ds (others path_list i)) (nodes graph)
         \<and> edges_data graph' =
             filter (\<lambda>(a, b, w). a \<notin> removed_nodes de ds (others path_list i)
                                \<and> b \<notin> removed_nodes de ds (others path_list i))
                    (edges_data graph)"
proof -
  from select_best_path_weight_branch [OF assms]
  obtain i where i: "first_max_index weight_avg_list i"
    "select_best_path graph path_list path_length weight_avg_list rand de ds =
       Inr (remove_paths graph (others path_list i) de ds)"
    by blast
  show ?thesis
    by (intro exI [of _ i] exI [of _ "remove_paths graph (others path_list i) de ds"])
       (simp add: i nodes_remove_paths edges_data_remove_paths)
qed

theorem select_best_path_keeps_heaviest_witness:
  "select_best_path
     [(''A'', [(''B'', 5), (''C'', 2)]), (''B'', [(''D'', 5)]), (''C'', [(''D'', 2)]), (''D'', [])]
     [[''A'', ''B'', ''D''], [''A'', ''C'', ''D'']] [3, 3] [5, 2] 0 False False
     = Inr [(''A'', [(''B'', 5)]), (''B'', [(''D'', 5)]), (''D'', [])]
   \<and> length [5, 2 :: rat] = length [[''A'', ''B'', ''D''], [''A'', ''C'', ''D'']]
   \<and> variance [5, 2] = Inr (9 / 2) \<and> (0 :: rat) < 9 / 2
   \<and> (\<exists>i graph'.
           first_max_index [5, 2 :: rat] i
         \<and> select_best_path
             [(''A'', [(''B'', 5), (''C'', 2)]), (''B'', [(''D'', 5)]), (''C'', [(''D'', 2)]),
              (''D'', [])]
             [[''A'', ''B'', ''D''], [''A'', ''C'', ''D'']] [3, 3] [5, 2] 0 False False
             = Inr graph'
         \<and> nodes graph' =
             filter (\<lambda>n. n \<notin> removed_nodes False False
                                (others [[''A'', ''B'', ''D''], [''A'', ''C'', ''D'']] i))
               (nodes [(''A'', [(''B'', 5), (''C'', 2)]), (''B'', [(''D'', 5)]),
                       (''C'', [(''D'', 2)]), (''D'', [])])
         \<and> edges_data graph' =
             filter (\<lambda>(a, b, w).
                        a \<notin> removed_nodes False False
                              (others [[''A'', ''B'', ''D''], [''A'', ''C'', ''D'']] i)
                      \<and> b \<notin> removed_nodes False False
                              (others [[''A'', ''B'', ''D''], [''A'', ''C'', ''D'']] i))
               (edges_data [(''A'', [(''B'', 5), (''C'', 2)]), (''B'', [(''D'', 5)]),
                            (''C'', [(''D'', 2)]), (''D'', [])]))"
proof -
  have len: "length [5, 2 :: rat] = length [[''A'', ''B'', ''D''], [''A'', ''C'', ''D'']]"
    by simp
  have var: "variance [5, 2] = Inr (9 / 2)"
    by (simp add: variance_def power2_eq_square)
  have pos: "(0 :: rat) < 9 / 2" by simp
  have res: "select_best_path
     [(''A'', [(''B'', 5), (''C'', 2)]), (''B'', [(''D'', 5)]), (''C'', [(''D'', 2)]), (''D'', [])]
     [[''A'', ''B'', ''D''], [''A'', ''C'', ''D'']] [3, 3] [5, 2] 0 False False
     = Inr [(''A'', [(''B'', 5)]), (''B'', [(''D'', 5)]), (''D'', [])]"
    by code_simp
  from select_best_path_keeps_heaviest [OF len var pos] len var pos res
  show ?thesis by blast
qed

text \<open>
  Claim C3 as the specification states it does not hold. The two simple paths from \<open>A\<close>
  to \<open>D\<close> below share the interior node \<open>B\<close>; their average weights are \<open>20/3\<close> and \<open>4\<close>.
  The path through \<open>C\<close> wins, and removing the interior \<open>B, E\<close> of the other path takes the
  node \<open>B\<close> and the edges \<open>A \<rightarrow> B\<close> and \<open>B \<rightarrow> C\<close> of the winning path with it.
\<close>

theorem select_best_path_keeps_heaviest_counterexample:
  "map_err (path_average_weight
       [(''A'', [(''B'', 10)]), (''B'', [(''C'', 5), (''E'', 1)]), (''C'', [(''D'', 5)]),
        (''E'', [(''D'', 1)]), (''D'', [])])
     [[''A'', ''B'', ''C'', ''D''], [''A'', ''B'', ''E'', ''D'']] = Inr [20 / 3, 4]
   \<and> select_best_path
       [(''A'', [(''B'', 10)]), (''B'', [(''C'', 5), (''E'', 1)]), (''C'', [(''D'', 5)]),
        (''E'', [(''D'', 1)]), (''D'', [])]
       [[''A'', ''B'', ''C'', ''D''], [''A'', ''B'', ''E'', ''D'']] [4, 4] [20 / 3, 4] 0
       False False
     = Inr [(''A'', []), (''C'', [(''D'', 5)]), (''D'', [])]
   \<and> solve_bubble
       [(''A'', [(''B'', 10)]), (''B'', [(''C'', 5), (''E'', 1)]), (''C'', [(''D'', 5)]),
        (''E'', [(''D'', 1)]), (''D'', [])] ''A'' ''D'' 0
     = Inr [(''A'', []), (''C'', [(''D'', 5)]), (''D'', [])]"
  by code_simp

text \<open>
  Claim C1, as amended. When all candidate paths have the same average weight and their
  lengths differ, the first path of greatest length is the one taken out of the list, and
  \<open>remove_paths\<close> removes, for every other candidate, the nodes of its trimmed path (with
  the default flags: its interior nodes) together with their edges. Every other node and
  every edge between two other nodes stays. So the longest path survives intact exactly
  as far as its nodes are not interior nodes of another candidate. Given two arms of
  equal weight with lengths 3 and 5 that share only their end nodes, the interior of the
  length-3 arm is removed and the length-5 arm stays whole.
\<close>

theorem select_best_path_keeps_longest:
  assumes "length path_length = length path_list"
      and "variance weight_avg_list = Inr 0"
      and "variance (map of_int path_length) = Inr v" and "0 < v"
  shows "\<exists>i graph'.
           first_max_index path_length i
         \<and> select_best_path graph path_list path_length weight_avg_list rand de ds = Inr graph'
         \<and> nodes graph' =
             filter (\<lambda>n. n \<notin> removed_nodes de ds (others path_list i)) (nodes graph)
         \<and> edges_data graph' =
             filter (\<lambda>(a, b, w). a \<notin> removed_nodes de ds (others path_list i)
                                \<and> b \<notin> removed_nodes de ds (others path_list i))
                    (edges_data graph)"
proof -
  from select_best_path_length_branch [OF assms]
  obtain i where i: "first_max_index path_length i"
    "select_best_path graph path_list path_length weight_avg_list rand de ds =
       Inr (remove_paths graph (others path_list i) de ds)"
    by blast
  show ?thesis
    by (intro exI [of _ i] exI [of _ "remove_paths graph (others path_list i) de ds"])
       (simp add: i nodes_remove_paths edges_data_remove_paths)
qed
theorem select_best_path_keeps_longest_witness:
  "select_best_path
     [(''A'', [(''B'', 2), (''C'', 2)]), (''B'', [(''D'', 2)]), (''C'', [(''E'', 2)]),
      (''E'', [(''F'', 2)]), (''F'', [(''D'', 2)]), (''D'', [])]
     [[''A'', ''B'', ''D''], [''A'', ''C'', ''E'', ''F'', ''D'']] [3, 5] [2, 2] 0 False False
     = Inr [(''A'', [(''C'', 2)]), (''C'', [(''E'', 2)]), (''E'', [(''F'', 2)]),
            (''F'', [(''D'', 2)]), (''D'', [])]
   \<and> length [3, 5 :: int] = length [[''A'', ''B'', ''D''], [''A'', ''C'', ''E'', ''F'', ''D'']]
   \<and> variance [2, 2] = Inr 0
   \<and> variance (map of_int [3, 5 :: int]) = Inr 2 \<and> (0 :: rat) < 2
   \<and> (\<exists>i graph'.
           first_max_index [3, 5 :: int] i
         \<and> select_best_path
             [(''A'', [(''B'', 2), (''C'', 2)]), (''B'', [(''D'', 2)]), (''C'', [(''E'', 2)]),
              (''E'', [(''F'', 2)]), (''F'', [(''D'', 2)]), (''D'', [])]
             [[''A'', ''B'', ''D''], [''A'', ''C'', ''E'', ''F'', ''D'']] [3, 5] [2, 2] 0
             False False
             = Inr graph'
         \<and> nodes graph' =
             filter (\<lambda>n. n \<notin> removed_nodes False False
                          (others [[''A'', ''B'', ''D''], [''A'', ''C'', ''E'', ''F'', ''D'']] i))
               (nodes [(''A'', [(''B'', 2), (''C'', 2)]), (''B'', [(''D'', 2)]),
                       (''C'', [(''E'', 2)]), (''E'', [(''F'', 2)]), (''F'', [(''D'', 2)]),
                       (''D'', [])])
         \<and> edges_data graph' =
             filter (\<lambda>(a, b, w).
                        a \<notin> removed_nodes False False
                          (others [[''A'', ''B'', ''D''], [''A'', ''C'', ''E'', ''F'', ''D'']] i)
                      \<and> b \<notin> removed_nodes False False
                          (others [[''A'', ''B'', ''D''], [''A'', ''C'', ''E'', ''F'', ''D'']] i))
               (edges_data [(''A'', [(''B'', 2), (''C'', 2)]), (''B'', [(''D'', 2)]),
                            (''C'', [(''E'', 2)]), (''E'', [(''F'', 2)]), (''F'', [(''D'', 2)]),
                            (''D'', [])]))"
proof -
  have len: "length [3, 5 :: int] =
             length [[''A'', ''B'', ''D''], [''A'', ''C'', ''E'', ''F'', ''D'']]"
    by simp
  have var_w: "variance [2, 2] = Inr 0"
    by (simp add: variance_def)
  have var_l: "variance (map of_int [3, 5 :: int]) = Inr 2"
    by (simp add: variance_def power2_eq_square)
  have pos: "(0 :: rat) < 2" by simp
  have res: "select_best_path
     [(''A'', [(''B'', 2), (''C'', 2)]), (''B'', [(''D'', 2)]), (''C'', [(''E'', 2)]),
      (''E'', [(''F'', 2)]), (''F'', [(''D'', 2)]), (''D'', [])]
     [[''A'', ''B'', ''D''], [''A'', ''C'', ''E'', ''F'', ''D'']] [3, 5] [2, 2] 0 False False
     = Inr [(''A'', [(''C'', 2)]), (''C'', [(''E'', 2)]), (''E'', [(''F'', 2)]),
            (''F'', [(''D'', 2)]), (''D'', [])]"
    by code_simp
  from select_best_path_keeps_longest [OF len var_w var_l pos] len var_w var_l pos res
  show ?thesis by blast
qed

text \<open>
  Claim C1 as the specification states it does not hold. Two arms from \<open>A\<close> to \<open>D\<close> with
  the same average weight 2, of lengths 3 and 5: the call removes \<open>B\<close>, the interior of the
  length-3 arm, and keeps the length-5 arm \<open>A, C, E, F, D\<close> whole.
\<close>

theorem select_best_path_keeps_longest_counterexample:
  "select_best_path
     [(''A'', [(''B'', 2), (''C'', 2)]), (''B'', [(''D'', 2)]), (''C'', [(''E'', 2)]),
      (''E'', [(''F'', 2)]), (''F'', [(''D'', 2)]), (''D'', [])]
     [[''A'', ''B'', ''D''], [''A'', ''C'', ''E'', ''F'', ''D'']] [3, 5] [2, 2] 0 False False
   = Inr [(''A'', [(''C'', 2)]), (''C'', [(''E'', 2)]), (''E'', [(''F'', 2)]),
          (''F'', [(''D'', 2)]), (''D'', [])]
   \<and> solve_bubble
       [(''A'', [(''B'', 2), (''C'', 2)]), (''B'', [(''D'', 2)]), (''C'', [(''E'', 2)]),
        (''E'', [(''F'', 2)]), (''F'', [(''D'', 2)]), (''D'', [])] ''A'' ''D'' 0
     = Inr [(''A'', [(''C'', 2)]), (''C'', [(''E'', 2)]), (''E'', [(''F'', 2)]),
            (''F'', [(''D'', 2)]), (''D'', [])]"
  by code_simp

text \<open>
  The same branch on two paths that share the interior node \<open>B\<close>: both have the average
  weight 2, the path of length 5 is taken out of the list, and removing the interior \<open>B\<close>
  of the path of length 3 takes \<open>B\<close> away from the path of length 5 as well.
\<close>

lemma longest_path_shares_interior_node:
  "all_simple_paths
     [(''A'', [(''B'', 2)]), (''B'', [(''D'', 2), (''C'', 2)]), (''C'', [(''E'', 2)]),
      (''E'', [(''D'', 2)]), (''D'', [])] ''A'' ''D''
     = Inr [[''A'', ''B'', ''D''], [''A'', ''B'', ''C'', ''E'', ''D'']]
   \<and> solve_bubble
       [(''A'', [(''B'', 2)]), (''B'', [(''D'', 2), (''C'', 2)]), (''C'', [(''E'', 2)]),
        (''E'', [(''D'', 2)]), (''D'', [])] ''A'' ''D'' 0
     = Inr [(''A'', []), (''C'', [(''E'', 2)]), (''E'', [(''D'', 2)]), (''D'', [])]"
  by code_simp

section \<open>Edges of the graph built from a k-mer table\<close>

lemma map_of_add_node:
  "map_of (add_node n g) = (if n \<in> dom (map_of g) then map_of g else (map_of g)(n \<mapsto> []))"
proof (cases "n \<in> fst ` set g")
  case True
  then show ?thesis
    by (simp add: add_node_def has_node_def nodes_def dom_map_of_conv_image_fst)
next
  case False
  then have none: "map_of g n = None" by (simp add: map_of_eq_None_iff)
  have "map_of (g @ [(n, [])]) = (map_of g)(n \<mapsto> [])"
    using none by (auto simp: fun_eq_iff map_add_def split: option.splits)
  with False show ?thesis
    by (simp add: add_node_def has_node_def nodes_def dom_map_of_conv_image_fst)
qed

lemma edge_weight_add_node: "edge_weight (add_node n g) a b = edge_weight g a b"
  by (auto simp: edge_weight_def map_of_add_node split: option.splits)

lemma map_of_add_node_self: "map_of (add_node n g) n \<noteq> None"
  by (auto simp: map_of_add_node)

lemma map_of_add_node_keep: "map_of g m \<noteq> None \<Longrightarrow> map_of (add_node n g) m \<noteq> None"
  by (auto simp: map_of_add_node)

lemma edge_weight_add_edge:
  "edge_weight (add_edge u v w g) a b = (if a = u \<and> b = v then Some w else edge_weight g a b)"
proof -
  let ?g = "add_node v (add_node u g)"
  have "map_of ?g u \<noteq> None"
    by (intro map_of_add_node_keep map_of_add_node_self)
  then obtain nbrs where nbrs: "map_of ?g u = Some nbrs" by auto
  have ew: "edge_weight ?g a b = edge_weight g a b"
    by (simp add: edge_weight_add_node)
  show ?thesis
  proof (cases "a = u")
    case True
    with nbrs ew [symmetric] show ?thesis
      by (simp add: add_edge_def edge_weight_def map_of_map_entry update_conv')
  next
    case False
    with ew show ?thesis
      by (simp add: add_edge_def edge_weight_def map_of_map_entry)
  qed
qed

lemma distinct_keys_add_node: "distinct_keys g \<Longrightarrow> distinct_keys (add_node n g)"
  by (auto simp: distinct_keys_def add_node_def has_node_def nodes_def)

lemma set_map_entry:
  "(a, y) \<in> set (AList.map_entry k f xs) \<Longrightarrow>
     (a, y) \<in> set xs \<or> (\<exists>x. (a, x) \<in> set xs \<and> y = f x)"
  by (induction xs) (auto split: if_splits)

lemma distinct_keys_add_edge:
  assumes "distinct_keys g"
  shows "distinct_keys (add_edge u v w g)"
proof -
  let ?g = "add_node v (add_node u g)"
  have g: "distinct_keys ?g" using assms by (intro distinct_keys_add_node)
  have "distinct (map fst (AList.map_entry u (AList.update v w) ?g))"
    using g by (simp add: distinct_keys_def distinct_map_entry)
  moreover have "distinct (map fst y)" if "(a, y) \<in> set (AList.map_entry u (AList.update v w) ?g)"
    for a y
  proof -
    from set_map_entry [OF that]
    consider "(a, y) \<in> set ?g" | x where "(a, x) \<in> set ?g" "y = AList.update v w x" by blast
    then show ?thesis
    proof cases
      case 1
      with g show ?thesis by (auto simp: distinct_keys_def)
    next
      case 2
      with g have "distinct (map fst x)" by (auto simp: distinct_keys_def)
      with 2 show ?thesis by (simp add: distinct_update)
    qed
  qed
  ultimately show ?thesis by (auto simp: distinct_keys_def add_edge_def)
qed

lemma edges_data_edge_weight:
  assumes "distinct_keys g"
  shows "(a, b, c) \<in> set (edges_data g) \<longleftrightarrow> edge_weight g a b = Some c"
proof -
  have d: "distinct (map fst g)" using assms by (simp add: distinct_keys_def)
  show ?thesis
  proof
    assume "(a, b, c) \<in> set (edges_data g)"
    then obtain nbrs where nbrs: "(a, nbrs) \<in> set g" "(b, c) \<in> set nbrs"
      by (auto simp: set_edges_data)
    with assms have "distinct (map fst nbrs)" by (auto simp: distinct_keys_def)
    with nbrs(2) have "map_of nbrs b = Some c" by simp
    moreover from d nbrs(1) have "map_of g a = Some nbrs" by simp
    ultimately show "edge_weight g a b = Some c" by (simp add: edge_weight_def)
  next
    assume "edge_weight g a b = Some c"
    then obtain nbrs where "map_of g a = Some nbrs" "map_of nbrs b = Some c"
      by (auto simp: edge_weight_def split: option.splits)
    then have "(a, nbrs) \<in> set g" "(b, c) \<in> set nbrs" by (auto dest: map_of_SomeD)
    then show "(a, b, c) \<in> set (edges_data g)" by (auto simp: set_edges_data)
  qed
qed

lemma build_graph_step:
  "fold (\<lambda>(kmer, count) graph. add_edge (butlast kmer) (tl kmer) count graph) t g =
   fold (\<lambda>entry. add_edge (fst (fst (kmer_edge entry))) (snd (fst (kmer_edge entry)))
                         (snd (kmer_edge entry))) t g"
  by (rule arg_cong [where f = "\<lambda>f. fold f t g"]) (auto simp: kmer_edge_def fun_eq_iff)

lemma distinct_keys_fold_add_edge:
  "distinct_keys g \<Longrightarrow>
   distinct_keys (fold (\<lambda>entry. add_edge (fst (fst (kmer_edge entry)))
                     (snd (fst (kmer_edge entry))) (snd (kmer_edge entry))) t g)"
  by (induction t arbitrary: g) (simp_all add: distinct_keys_add_edge)

lemma edge_weight_fold_add_edge:
  "edge_weight (fold (\<lambda>entry. add_edge (fst (fst (kmer_edge entry)))
                     (snd (fst (kmer_edge entry))) (snd (kmer_edge entry))) t g) a b =
   (case map_of (rev (map kmer_edge t)) (a, b) of None \<Rightarrow> edge_weight g a b | Some c \<Rightarrow> Some c)"
proof (induction t arbitrary: g)
  case Nil
  show ?case by simp
next
  case (Cons entry t)
  show ?case
    by (cases "kmer_edge entry")
       (auto simp: Cons edge_weight_add_edge map_add_def split: option.splits)
qed

lemma distinct_keys_build_graph: "distinct_keys (build_graph t)"
  unfolding build_graph_def build_graph_step
  by (rule distinct_keys_fold_add_edge) (simp add: distinct_keys_def)

lemma edge_weight_build_graph:
  "edge_weight (build_graph t) a b = map_of (rev (map kmer_edge t)) (a, b)"
  unfolding build_graph_def build_graph_step edge_weight_fold_add_edge
  by (simp add: edge_weight_def split: option.splits)

lemma kmer_from_ends:
  assumes "2 \<le> length kmer"
  shows "butlast kmer @ [last (tl kmer)] = kmer" and "tl kmer \<noteq> []"
proof -
  from assms obtain x y rest where "kmer = x # y # rest"
    by (cases kmer; cases "tl kmer") auto
  then show "tl kmer \<noteq> []" and "butlast kmer @ [last (tl kmer)] = kmer"
    by (simp_all add: snoc_eq_iff_butlast)
qed

lemma kmer_edge_inj:
  assumes "2 \<le> length k1" and "2 \<le> length k2"
      and "butlast k1 = butlast k2" and "tl k1 = tl k2"
  shows "k1 = k2"
proof -
  have "k1 = butlast k1 @ [last (tl k1)]" using kmer_from_ends(1) [OF assms(1)] by simp
  also have "\<dots> = butlast k2 @ [last (tl k2)]" using assms(3,4) by simp
  also have "\<dots> = k2" using kmer_from_ends(1) [OF assms(2)] by simp
  finally show ?thesis .
qed

lemma distinct_kmer_edges:
  assumes "distinct (map fst t)" and "\<forall>kmer\<in>fst ` set t. 2 \<le> length kmer"
  shows "distinct (map fst (map kmer_edge t))"
proof -
  have eq: "map fst (map kmer_edge t) = map (\<lambda>k. (butlast k, tl k)) (map fst t)"
    by (simp add: kmer_edge_def)
  have inj: "inj_on (\<lambda>k. (butlast k, tl k)) (set (map fst t))"
    using assms(2) by (auto intro!: inj_onI kmer_edge_inj)
  have "distinct (map (\<lambda>k. (butlast k, tl k)) (map fst t))"
    using assms(1) inj distinct_map [of "\<lambda>k. (butlast k, tl k)" "map fst t"] by blast
  then show ?thesis by (simp only: eq)
qed

lemma edges_data_build_graph:
  assumes "distinct (map fst t)" and "\<forall>kmer\<in>fst ` set t. 2 \<le> length kmer"
  shows "(a, b, c) \<in> set (edges_data (build_graph t)) \<longleftrightarrow>
           (\<exists>kmer. (kmer, c) \<in> set t \<and> a = butlast kmer \<and> b = tl kmer)"
proof -
  have d: "distinct (map fst (rev (map kmer_edge t)))"
    using distinct_kmer_edges [OF assms] by (simp add: rev_map [symmetric])
  have "(a, b, c) \<in> set (edges_data (build_graph t)) \<longleftrightarrow>
          map_of (rev (map kmer_edge t)) (a, b) = Some c"
    by (simp add: edges_data_edge_weight [OF distinct_keys_build_graph] edge_weight_build_graph)
  also have "\<dots> \<longleftrightarrow> ((a, b), c) \<in> set (rev (map kmer_edge t))"
    using d by (rule map_of_eq_Some_iff)
  also have "\<dots> \<longleftrightarrow> (\<exists>kmer. (kmer, c) \<in> set t \<and> a = butlast kmer \<and> b = tl kmer)"
  proof
    assume "((a, b), c) \<in> set (rev (map kmer_edge t))"
    then obtain entry where "entry \<in> set t" "kmer_edge entry = ((a, b), c)" by auto
    then have "(fst entry, c) \<in> set t \<and> a = butlast (fst entry) \<and> b = tl (fst entry)"
      by (cases entry) (auto simp: kmer_edge_def)
    then show "\<exists>kmer. (kmer, c) \<in> set t \<and> a = butlast kmer \<and> b = tl kmer" by blast
  next
    assume "\<exists>kmer. (kmer, c) \<in> set t \<and> a = butlast kmer \<and> b = tl kmer"
    then obtain kmer where k: "(kmer, c) \<in> set t" "a = butlast kmer" "b = tl kmer" by blast
    have "kmer_edge (kmer, c) = ((a, b), c)" using k(2,3) by (simp add: kmer_edge_def)
    with k(1) have "((a, b), c) \<in> kmer_edge ` set t" by (metis imageI)
    then show "((a, b), c) \<in> set (rev (map kmer_edge t))" by simp
  qed
  finally show ?thesis .
qed

text \<open>
  Claim C4, as amended. For a k-mer table whose keys all have at least two characters
  (k-mer size \<open>k \<ge> 2\<close>): every edge \<open>(u, v)\<close> with weight \<open>w\<close> of the graph built by
  \<open>build_graph\<close> reconstructs, as \<open>u + v[-1]\<close>, a k-mer that is a key of the table with
  count \<open>w\<close>; and every entry of the table has its edge from \<open>kmer[0:-1]\<close> to \<open>kmer[1:]\<close>
  with its count as weight.
\<close>

theorem build_graph_round_trip:
  assumes "distinct (map fst kmer_dict)"
      and "\<forall>kmer\<in>fst ` set kmer_dict. 2 \<le> length kmer"
  shows "(\<forall>(u, v, w)\<in>set (edges_data (build_graph kmer_dict)).
            \<exists>kmer. reconstruct_kmer u v = Inr kmer \<and> (kmer, w) \<in> set kmer_dict)
         \<and> (\<forall>(kmer, count)\<in>set kmer_dict.
              (butlast kmer, tl kmer, count) \<in> set (edges_data (build_graph kmer_dict)))"
proof (intro conjI ballI)
  fix e assume e: "e \<in> set (edges_data (build_graph kmer_dict))"
  obtain u v w where uvw: "e = (u, v, w)" by (cases e)
  with e obtain kmer where k: "(kmer, w) \<in> set kmer_dict" "u = butlast kmer" "v = tl kmer"
    using edges_data_build_graph [OF assms] by blast
  from k(1) assms(2) have len: "2 \<le> length kmer" by force
  have "reconstruct_kmer u v = Inr kmer"
    using kmer_from_ends [OF len] k(2,3)
    by (simp add: reconstruct_kmer_def last_char_def bind_err_def)
  with k(1) uvw
  show "case e of (u, v, w) \<Rightarrow>
          \<exists>kmer. reconstruct_kmer u v = Inr kmer \<and> (kmer, w) \<in> set kmer_dict"
    by auto
next
  fix entry assume entry: "entry \<in> set kmer_dict"
  obtain kmer count where kc: "entry = (kmer, count)" by (cases entry)
  with entry have "(butlast kmer, tl kmer, count) \<in> set (edges_data (build_graph kmer_dict))"
    using edges_data_build_graph [OF assms] by blast
  with kc
  show "case entry of (kmer, count) \<Rightarrow>
          (butlast kmer, tl kmer, count) \<in> set (edges_data (build_graph kmer_dict))"
    by simp
qed

theorem build_graph_round_trip_witness:
  "distinct (map fst [(''AAT'', 1 :: int), (''ATC'', 2)])
   \<and> edges_data (build_graph [(''AAT'', 1), (''ATC'', 2)]) =
       [(''AA'', ''AT'', 1), (''AT'', ''TC'', 2)]
   \<and> (\<exists>kmer. reconstruct_kmer ''AA'' ''AT'' = Inr kmer
              \<and> (kmer, 1) \<in> set [(''AAT'', 1 :: int), (''ATC'', 2)])
   \<and> (butlast ''ATC'', tl ''ATC'', 2)
       \<in> set (edges_data (build_graph [(''AAT'', 1), (''ATC'', 2)]))"
proof -
  let ?t = "[(''AAT'', 1), (''ATC'', 2)] :: kmer_dict"
  have d: "distinct (map fst ?t)" by simp
  have l: "\<forall>kmer\<in>fst ` set ?t. 2 \<le> length kmer" by simp
  have e: "edges_data (build_graph ?t) = [(''AA'', ''AT'', 1), (''AT'', ''TC'', 2)]"
    by code_simp
  note rt = build_graph_round_trip [OF d l]
  have "(''AA'', ''AT'', 1) \<in> set (edges_data (build_graph ?t))" by (simp add: e)
  with rt have "case (''AA'', ''AT'', 1 :: int) of (u, v, w) \<Rightarrow>
                  \<exists>kmer. reconstruct_kmer u v = Inr kmer \<and> (kmer, w) \<in> set ?t"
    by (elim conjE bspec)
  then have a: "\<exists>kmer. reconstruct_kmer ''AA'' ''AT'' = Inr kmer \<and> (kmer, 1) \<in> set ?t"
    by (simp only: prod.case)
  have "(''ATC'', 2) \<in> set ?t" by simp
  with rt have "case (''ATC'', 2 :: int) of (kmer, count) \<Rightarrow>
                  (butlast kmer, tl kmer, count) \<in> set (edges_data (build_graph ?t))"
    by (elim conjE bspec)
  then have b: "(butlast ''ATC'', tl ''ATC'', 2) \<in> set (edges_data (build_graph ?t))"
    by (simp only: prod.case)
  from d e a b show ?thesis by (intro conjI)
qed

text \<open>
  Claim C4 as the specification states it does not hold for every k-mer table. For
  \<open>k = 1\<close> every k-mer has the empty prefix and the empty suffix: the table
  \<open>{"A": 2, "C": 1}\<close> gives the single edge from the empty node to itself with the weight 1
  written last. The last character of its target does not exist, so \<open>u + v[-1]\<close> raises
  \<open>IndexError\<close>, and the entry \<open>("A", 2)\<close> has no edge with its count.
\<close>

theorem build_graph_round_trip_counterexample:
  "edges_data (build_graph [(''A'', 2), (''C'', 1)]) = [('''', '''', 1)]
   \<and> reconstruct_kmer '''' '''' = Inl IndexError
   \<and> (butlast ''A'', tl ''A'', 2) \<notin> set (edges_data (build_graph [(''A'', 2), (''C'', 1)]))"
proof -
  have e: "edges_data (build_graph [(''A'', 2), (''C'', 1)]) = [('''', '''', 1)]"
    by code_simp
  have r: "reconstruct_kmer '''' '''' = Inl IndexError"
    by (simp add: reconstruct_kmer_def last_char_def bind_err_def)
  from e r show ?thesis by simp
qed

section \<open>Contigs\<close>

lemma for_each_collect:
  assumes "\<And>x s. x \<in> set xs \<Longrightarrow> body x s = Inr (s @ f x)"
  shows "for_each body xs s = Inr (s @ concat (map f xs))"
  using assms
proof (induction xs arbitrary: s)
  case Nil
  show ?case by simp
next
  case (Cons x xs)
  have "body x s = Inr (s @ f x)" using Cons.prems by simp
  moreover have "for_each body xs (s @ f x) = Inr ((s @ f x) @ concat (map f xs))"
    using Cons.prems by (intro Cons.IH) simp
  ultimately show ?case by (simp add: bind_err_def)
qed

lemma contig_loop:
  assumes "\<forall>node\<in>set rest. node \<noteq> []"
  shows "for_each (\<lambda>node cont. bind_err (last_char node) (\<lambda>c. Inr (cont @ [c]))) rest first =
           Inr (first @ map last rest)"
  using assms
  by (induction rest arbitrary: first) (simp_all add: bind_err_def last_char_def)

lemma contig_of_path_spec:
  assumes "path \<noteq> []" and "\<forall>node\<in>set (tl path). node \<noteq> []"
  shows "contig_of_path path = Inr (contig_spec path)"
proof (cases path)
  case Nil
  with assms(1) show ?thesis by simp
next
  case (Cons first rest)
  with assms(2) show ?thesis
    by (simp add: contig_of_path_def contig_spec_def contig_loop)
qed

lemma simple_paths_from_targets:
  "p \<in> set (simple_paths_from c g visited u t) \<Longrightarrow>
     \<exists>rest. p = visited @ rest \<and> (\<forall>n\<in>set rest. \<exists>a w. (a, n, w) \<in> set (edges_data g))"
proof (induction c arbitrary: visited u)
  case 0
  then show ?case by simp
next
  case (Suc c)
  from Suc.prems obtain child where child: "child \<in> set (successors g u)"
      and p: "(child = t \<and> p = visited @ [child])
              \<or> (child \<noteq> t \<and> p \<in> set (simple_paths_from c g (visited @ [child]) child t))"
    by (auto split: if_splits)
  from successors_edge [OF child] obtain w where w: "(u, child, w) \<in> set (edges_data g)" ..
  from p show ?case
  proof
    assume "child = t \<and> p = visited @ [child]"
    with w show ?thesis by (intro exI [of _ "[child]"]) auto
  next
    assume "child \<noteq> t \<and> p \<in> set (simple_paths_from c g (visited @ [child]) child t)"
    then obtain rest where rest: "p = (visited @ [child]) @ rest"
        "\<forall>n\<in>set rest. \<exists>a w. (a, n, w) \<in> set (edges_data g)"
      using Suc.IH by blast
    with w show ?thesis by (intro exI [of _ "child # rest"]) auto
  qed
qed

lemma found_path_nodes:
  assumes "all_simple_paths g source target = Inr paths" and "p \<in> set paths"
      and "\<forall>(a, n, w)\<in>set (edges_data g). n \<noteq> []"
  shows "p \<noteq> [] \<and> (\<forall>node\<in>set (tl p). node \<noteq> [])"
proof -
  from assms(1,2) have "p \<in> set (simple_paths_from (length g - 1) g [source] source target)"
    by (auto simp: all_simple_paths_def split: if_splits)
  then obtain rest where rest: "p = [source] @ rest"
      "\<forall>n\<in>set rest. \<exists>a w. (a, n, w) \<in> set (edges_data g)"
    using simple_paths_from_targets by blast
  from rest(2) assms(3) have "\<forall>n\<in>set rest. n \<noteq> []" by fastforce
  with rest(1) show ?thesis by simp
qed

lemma all_simple_paths_total:
  "has_node g source \<Longrightarrow> has_node g target \<Longrightarrow> \<exists>paths. all_simple_paths g source target = Inr paths"
  by (simp add: all_simple_paths_def)

lemma get_contigs_returns:
  assumes "\<forall>(a, n, w)\<in>set (edges_data graph). n \<noteq> []"
      and "\<forall>start\<in>set starting_nodes. has_node graph start"
      and "\<forall>end\<in>set ending_nodes. has_node graph end"
  shows "get_contigs graph starting_nodes ending_nodes =
           Inr (map (\<lambda>path. (contig_spec path, length (contig_spec path)))
                    (found_paths graph starting_nodes ending_nodes))"
proof -
  let ?emit = "\<lambda>path. [(contig_spec path, length (contig_spec path))]"
  let ?paths = "\<lambda>start end. case all_simple_paths graph start end of
                                Inl e \<Rightarrow> [] | Inr paths \<Rightarrow> paths"
  let ?inner = "\<lambda>path contigs_list.
                  bind_err (contig_of_path path) (\<lambda>cont. Inr (contigs_list @ [(cont, length cont)]))"
  let ?middle = "\<lambda>start end contigs_list.
                   bind_err (all_simple_paths graph start end) (\<lambda>paths.
                     for_each ?inner paths contigs_list)"
  have middle: "?middle start end s = Inr (s @ concat (map ?emit (?paths start end)))"
    if "start \<in> set starting_nodes" "end \<in> set ending_nodes" for start "end" s
  proof -
    from that assms(2,3) obtain paths where paths: "all_simple_paths graph start end = Inr paths"
      using all_simple_paths_total by blast
    have "for_each ?inner paths s = Inr (s @ concat (map ?emit paths))"
    proof (rule for_each_collect)
      fix p s' assume "p \<in> set paths"
      from found_path_nodes [OF paths this assms(1)]
      have "contig_of_path p = Inr (contig_spec p)" by (intro contig_of_path_spec) auto
      then show "?inner p s' = Inr (s' @ ?emit p)" by (simp add: bind_err_def)
    qed
    with paths show ?thesis by (simp add: bind_err_def)
  qed
  have outer: "for_each (?middle start) ending_nodes s =
                 Inr (s @ concat (map (\<lambda>end. concat (map ?emit (?paths start end))) ending_nodes))"
    if "start \<in> set starting_nodes" for start s
    using that by (intro for_each_collect middle)
  have "for_each (\<lambda>start. for_each (?middle start) ending_nodes) starting_nodes [] =
          Inr ([] @ concat (map (\<lambda>start.
                  concat (map (\<lambda>end. concat (map ?emit (?paths start end))) ending_nodes))
                starting_nodes))"
    by (intro for_each_collect outer)
  moreover have "concat (map (\<lambda>start.
                  concat (map (\<lambda>end. concat (map ?emit (?paths start end))) ending_nodes))
                starting_nodes) =
        map (\<lambda>path. (contig_spec path, length (contig_spec path)))
            (found_paths graph starting_nodes ending_nodes)"
    by (simp add: found_paths_def map_concat comp_def)
  ultimately show ?thesis by (simp add: get_contigs_def)
qed

lemma for_each_collect_result:
  assumes "for_each body xs s = Inr s'"
      and "\<And>x s s1. x \<in> set xs \<Longrightarrow> body x s = Inr s1 \<Longrightarrow> s1 = s @ f x"
  shows "s' = s @ concat (map f xs)"
  using assms
proof (induction xs arbitrary: s)
  case Nil
  then show ?case by simp
next
  case (Cons x xs)
  from Cons.prems(1) obtain s1 where s1: "body x s = Inr s1" "for_each body xs s1 = Inr s'"
    by (cases "body x s") (auto simp: bind_err_def)
  have "s1 = s @ f x" using Cons.prems(2) s1(1) by simp
  moreover have "s' = s1 @ concat (map f xs)"
    using s1(2) Cons.prems(2) by (intro Cons.IH) auto
  ultimately show ?case by simp
qed

lemma contig_loop_result:
  "for_each (\<lambda>node cont. bind_err (last_char node) (\<lambda>c. Inr (cont @ [c]))) rest first = Inr cont
   \<Longrightarrow> cont = first @ map last rest"
proof (induction rest arbitrary: first)
  case Nil
  then show ?case by simp
next
  case (Cons node rest)
  from Cons.prems have ne: "node \<noteq> []"
    by (auto simp: bind_err_def last_char_def split: if_splits)
  with Cons.prems have
    "for_each (\<lambda>node cont. bind_err (last_char node) (\<lambda>c. Inr (cont @ [c]))) rest
       (first @ [last node]) = Inr cont"
    by (simp add: bind_err_def last_char_def)
  from Cons.IH [OF this] show ?case by simp
qed

lemma contig_of_path_result: "contig_of_path path = Inr cont \<Longrightarrow> cont = contig_spec path"
  by (cases path) (auto simp: contig_of_path_def contig_spec_def dest: contig_loop_result)

lemma get_contigs_result:
  assumes "get_contigs graph starting_nodes ending_nodes = Inr contigs_list"
  shows "contigs_list =
           map (\<lambda>path. (contig_spec path, length (contig_spec path)))
               (found_paths graph starting_nodes ending_nodes)"
proof -
  let ?emit = "\<lambda>path. [(contig_spec path, length (contig_spec path))]"
  let ?paths = "\<lambda>start end. case all_simple_paths graph start end of
                                Inl e \<Rightarrow> [] | Inr paths \<Rightarrow> paths"
  let ?inner = "\<lambda>path contigs_list.
                  bind_err (contig_of_path path) (\<lambda>cont. Inr (contigs_list @ [(cont, length cont)]))"
  let ?middle = "\<lambda>start end contigs_list.
                   bind_err (all_simple_paths graph start end) (\<lambda>paths.
                     for_each ?inner paths contigs_list)"
  have inner: "s1 = s @ ?emit p" if "?inner p s = Inr s1" for p s s1
  proof (cases "contig_of_path p")
    case (Inl e)
    with that show ?thesis by (simp add: bind_err_def)
  next
    case (Inr cont)
    with that contig_of_path_result [OF Inr] show ?thesis by (auto simp: bind_err_def)
  qed
  have middle: "s1 = s @ concat (map ?emit (?paths start end))"
    if "?middle start end s = Inr s1" for start "end" s s1
  proof (cases "all_simple_paths graph start end")
    case (Inl e)
    with that show ?thesis by (simp add: bind_err_def)
  next
    case (Inr paths)
    with that have "for_each ?inner paths s = Inr s1" by (simp add: bind_err_def)
    then have "s1 = s @ concat (map ?emit paths)"
      by (rule for_each_collect_result) (rule inner)
    with Inr show ?thesis by simp
  qed
  have outer: "s1 = s @ concat (map (\<lambda>end. concat (map ?emit (?paths start end))) ending_nodes)"
    if "for_each (?middle start) ending_nodes s = Inr s1" for start s s1
    using that by (rule for_each_collect_result) (rule middle)
  from assms have
    "for_each (\<lambda>start. for_each (?middle start) ending_nodes) starting_nodes [] = Inr contigs_list"
    by (simp add: get_contigs_def)
  then have "contigs_list = [] @ concat (map (\<lambda>start.
                  concat (map (\<lambda>end. concat (map ?emit (?paths start end))) ending_nodes))
                starting_nodes)"
    by (rule for_each_collect_result) (rule outer)
  then show ?thesis
    by (simp add: found_paths_def map_concat comp_def)
qed

text \<open>
  Claim C6. Whenever \<open>get_contigs\<close> returns, it has emitted, for every simple path found
  from a starting node to an ending node and in the order of enumeration, the pair of the
  contig (the first node of the path in full followed by the last character of every
  later node) and the length of that string. It does return when the starting and ending
  nodes are nodes of the graph and every edge leads to a non-empty node string. The
  linear graph \<open>AAT \<rightarrow> ATC \<rightarrow> TCG\<close> gives the single contig \<open>AATCG\<close> of length 5.
\<close>

theorem get_contigs_reconstructs:
  "(get_contigs graph starting_nodes ending_nodes = Inr contigs_list \<longrightarrow>
      contigs_list =
        map (\<lambda>path. (contig_spec path, length (contig_spec path)))
            (found_paths graph starting_nodes ending_nodes))
   \<and> ((\<forall>(a, n, w)\<in>set (edges_data graph). n \<noteq> [])
        \<and> (\<forall>start\<in>set starting_nodes. has_node graph start)
        \<and> (\<forall>end\<in>set ending_nodes. has_node graph end) \<longrightarrow>
      get_contigs graph starting_nodes ending_nodes =
        Inr (map (\<lambda>path. (contig_spec path, length (contig_spec path)))
                 (found_paths graph starting_nodes ending_nodes)))"
  using get_contigs_result get_contigs_returns by blast

theorem get_contigs_reconstructs_witness:
  "found_paths [(''AAT'', [(''ATC'', 1)]), (''ATC'', [(''TCG'', 1)]), (''TCG'', [])]
        [''AAT''] [''TCG''] = [[''AAT'', ''ATC'', ''TCG'']]
   \<and> get_contigs [(''AAT'', [(''ATC'', 1)]), (''ATC'', [(''TCG'', 1)]), (''TCG'', [])]
        [''AAT''] [''TCG''] = Inr [(''AATCG'', 5)]"
proof -
  let ?g = "[(''AAT'', [(''ATC'', 1)]), (''ATC'', [(''TCG'', 1)]), (''TCG'', [])] :: graph"
  have e: "\<forall>(a, n, w)\<in>set (edges_data ?g). n \<noteq> []"
    by (simp add: edges_data_def)
  have s: "\<forall>start\<in>set [''AAT'']. has_node ?g start"
    by (simp add: has_node_def nodes_def)
  have t: "\<forall>end\<in>set [''TCG'']. has_node ?g end"
    by (simp add: has_node_def nodes_def)
  have p: "found_paths ?g [''AAT''] [''TCG''] = [[''AAT'', ''ATC'', ''TCG'']]"
    by code_simp
  have "get_contigs ?g [''AAT''] [''TCG''] =
          Inr (map (\<lambda>path. (contig_spec path, length (contig_spec path)))
                   (found_paths ?g [''AAT''] [''TCG'']))"
    using get_contigs_reconstructs [of ?g "[''AAT'']" "[''TCG'']"] e s t by blast
  then have "get_contigs ?g [''AAT''] [''TCG''] = Inr [(''AATCG'', 5)]"
    by (simp add: p contig_spec_def)
  with p show ?thesis by (intro conjI)
qed

section \<open>The average weight of a path\<close>

text \<open>
  Where no edge of the graph joins two nodes of a path other than a node and its
  successor on the path, and the path visits no node twice, the subgraph induced by the
  path has exactly the edges of the path, and \<open>path_average_weight\<close> is the mean of their
  weights.
\<close>

lemma sum_list_filter_split:
  fixes f :: "'e \<Rightarrow> 'n::comm_monoid_add"
  assumes "\<And>e. \<not> (P e \<and> Q e)"
  shows "sum_list (map f (filter (\<lambda>e. P e \<or> Q e) es)) =
           sum_list (map f (filter P es)) + sum_list (map f (filter Q es))"
  using assms by (induction es) (auto simp: add_ac)

lemma sum_list_filter_keys:
  fixes f :: "'e \<Rightarrow> 'n::comm_monoid_add"
  assumes "distinct ks"
  shows "sum_list (map f (filter (\<lambda>e. key e \<in> set ks) es)) =
           (\<Sum>k\<leftarrow>ks. sum_list (map f (filter (\<lambda>e. key e = k) es)))"
  using assms
proof (induction ks)
  case Nil
  show ?case by simp
next
  case (Cons k ks)
  have "sum_list (map f (filter (\<lambda>e. key e \<in> set (k # ks)) es)) =
        sum_list (map f (filter (\<lambda>e. key e = k \<or> key e \<in> set ks) es))"
    by simp
  also have "\<dots> = sum_list (map f (filter (\<lambda>e. key e = k) es))
                  + sum_list (map f (filter (\<lambda>e. key e \<in> set ks) es))"
    using Cons.prems by (intro sum_list_filter_split) auto
  finally show ?case using Cons by simp
qed

lemma sum_list_map_concat:
  fixes f :: "'e \<Rightarrow> 'n::comm_monoid_add"
  shows "sum_list (map f (concat xss)) = (\<Sum>xs\<leftarrow>xss. sum_list (map f xs))"
  by (induction xss) simp_all

lemma path_edges_of_chordless_path:
  fixes f :: "int \<Rightarrow> 'n::comm_monoid_add"
  assumes "distinct path"
      and "\<forall>(a, b, w)\<in>set (edges_data graph).
             a \<in> set path \<and> b \<in> set path \<longrightarrow> (a, b) \<in> set (zip path (tl path))"
  shows "sum_list (map f (map (\<lambda>(u, v, w). w) (edges_data (subgraph graph path)))) =
         sum_list (map f (path_edge_weights graph path))"
proof -
  let ?es = "edges_data graph"
  let ?ks = "zip path (tl path)"
  let ?key = "\<lambda>(a, b, w). (a, b)"
  let ?w = "\<lambda>e. f (case e of (u, v, w) \<Rightarrow> w)"
  have d: "distinct ?ks" using assms(1) by (rule distinct_zipI1)
  have "(a \<in> set path \<and> b \<in> set path) = ((a, b) \<in> set ?ks)"
    if "(a, b, w) \<in> set ?es" for a b w
  proof
    assume "a \<in> set path \<and> b \<in> set path"
    with that assms(2) show "(a, b) \<in> set ?ks" by blast
  next
    assume "(a, b) \<in> set ?ks"
    then have "a \<in> set path" "b \<in> set (tl path)"
      by (auto dest: set_zip_leftD set_zip_rightD)
    then show "a \<in> set path \<and> b \<in> set path" by (cases path) auto
  qed
  then have "filter (\<lambda>(u, v, w). u \<in> set path \<and> v \<in> set path) ?es =
             filter (\<lambda>e. ?key e \<in> set ?ks) ?es"
    by (intro filter_cong) auto
  then have "sum_list (map f (map (\<lambda>(u, v, w). w) (edges_data (subgraph graph path)))) =
             sum_list (map ?w (filter (\<lambda>e. ?key e \<in> set ?ks) ?es))"
    by (simp add: edges_data_subgraph comp_def)
  also have "\<dots> = (\<Sum>k\<leftarrow>?ks. sum_list (map ?w (filter (\<lambda>e. ?key e = k) ?es)))"
    using d by (rule sum_list_filter_keys)
  also have "\<dots> = sum_list (map f (path_edge_weights graph path))"
    by (simp add: path_edge_weights_def sum_list_map_concat comp_def case_prod_unfold
             prod_eq_iff)
  finally show ?thesis .
qed

lemma length_as_sum_list: "int (length xs) = sum_list (map (\<lambda>x. 1) xs)"
  by (induction xs) simp_all

lemma path_average_weight_chordless:
  assumes "distinct path"
      and "\<forall>(a, b, w)\<in>set (edges_data graph).
             a \<in> set path \<and> b \<in> set path \<longrightarrow> (a, b) \<in> set (zip path (tl path))"
  shows "path_average_weight graph path = path_weight_spec graph path"
proof -
  let ?xs = "map (\<lambda>(u, v, w). w) (edges_data (subgraph graph path))"
  let ?ys = "path_edge_weights graph path"
  have s: "sum_list ?xs = sum_list ?ys"
    using path_edges_of_chordless_path [OF assms, of "\<lambda>w. w"] by simp
  have "int (length ?xs) = int (length ?ys)"
    using path_edges_of_chordless_path [OF assms, of "\<lambda>w. 1 :: int"]
    by (simp only: length_as_sum_list)
  then have l: "length ?xs = length ?ys" by simp
  then have "(?xs = []) = (?ys = [])" by (metis length_0_conv)
  with s l show ?thesis
    by (simp add: path_average_weight_def path_weight_spec_def mean_def)
qed

lemma chord_graph_simple_paths:
  "all_simple_paths [(''A'', [(''B'', 1), (''C'', 4)]), (''B'', [(''C'', 1)]), (''C'', [])]
     ''A'' ''C'' = Inr [[''A'', ''B'', ''C''], [''A'', ''C'']]"
  by code_simp

text \<open>
  Claim C2, at its failing input. The graph has the edges \<open>A \<rightarrow> B\<close> and \<open>B \<rightarrow> C\<close> of weight 1
  and the chord \<open>A \<rightarrow> C\<close> of weight 4. \<open>A, B, C\<close> is one of its two simple paths from \<open>A\<close> to
  \<open>C\<close>, and the mean of the weights of its two edges is 1. \<open>path_average_weight\<close> takes the
  mean over the subgraph induced by the nodes of the path, which contains the chord as
  well, and returns 2.
\<close>

theorem path_average_weight_counts_chord:
  "path_weight_spec [(''A'', [(''B'', 1), (''C'', 4)]), (''B'', [(''C'', 1)]), (''C'', [])]
       [''A'', ''B'', ''C''] = Inr 1
   \<and> path_average_weight [(''A'', [(''B'', 1), (''C'', 4)]), (''B'', [(''C'', 1)]), (''C'', [])]
       [''A'', ''B'', ''C''] = Inr 2"
  by code_simp

end
